theory Spec2Isabelle
  imports Complex_Main "HOL-Library.AList"
begin

section \<open>The render tree and render cache of renpy/display/render.pyx\<close>

text \<open>
  The model follows \<^verbatim>\<open>src/renpy/display/render.pyx\<close>. A \<^verbatim>\<open>Render\<close> object is
  identified by its position on a heap (a list of node records), so that object identity
  (\<^verbatim>\<open>is\<close>) is equality of positions. A displayable is identified by \<^verbatim>\<open>id(d)\<close>.
  The module's globals are the fields of one state record, and every operation takes the
  state and returns the new one. A Python exception is an \<open>Inl\<close> outcome, returned
  together with the state as the raise left it. Sizes and times are real numbers; where
  the source holds a size in a C \<^verbatim>\<open>float\<close> the value is rounded to single precision
  (\<open>float32\<close> below). Times are C doubles and Python floats in the source, and their
  rounding is not modelled.
\<close>

subsection \<open>Data\<close>

type_synonym rid = nat
type_synonym did = nat

text \<open>
  The exceptions that the code raises itself (\<^verbatim>\<open>Exception\<close>, with its message) and the
  \<^verbatim>\<open>TypeError\<close> of an assignment to a variable declared \<^verbatim>\<open>cdef Render\<close>.
\<close>

datatype error = Exception string | TypeError string

text \<open>
  A Python object as the code tells it apart with \<^verbatim>\<open>isinstance\<close>: a \<^verbatim>\<open>Render\<close>,
  a \<^verbatim>\<open>pygame.Surface\<close>, \<^verbatim>\<open>None\<close>, or anything else (a texture, a GL2 model, a
  plain value).
\<close>

datatype pyobj = Render rid | Surface nat | Other nat | NoneObj

subsection \<open>C floats\<close>

text \<open>
  The value that a Python number takes in a variable declared \<^verbatim>\<open>float\<close>: IEEE 754
  single precision, rounded to the nearest, ties to the even significand. \<open>expo\<close> looks
  for the binary exponent from 127 down to -126 (below \<open>2 powi (-126)\<close> the floats are
  subnormal and keep that exponent); the significand has 24 bits, so the grid at exponent
  \<open>e\<close> has step \<open>2 powi (e - 23)\<close>. Beyond the largest float C gives an infinity; the
  function keeps rounding on the last grid there, and no size is that large. The conversion
  goes through a C double, which holds the sizes that occur exactly.
\<close>

definition rne :: "real \<Rightarrow> int" where
  "rne x = (let f = \<lfloor>x\<rfloor>; r = x - of_int f
            in if r < 1 / 2 then f else if 1 / 2 < r then f + 1
               else if even f then f else f + 1)"

fun expo :: "nat \<Rightarrow> int \<Rightarrow> real \<Rightarrow> int" where
  "expo 0 k x = k"
| "expo (Suc n) k x = (if 2 powi k \<le> \<bar>x\<bar> then k else expo n (k - 1) x)"

definition float32 :: "real \<Rightarrow> real" where
  "float32 x = (let e = expo 253 127 x; u = 2 powi (e - 23) in of_int (rne (x / u)) * u)"

text \<open>
  The offset of a child: \<^verbatim>\<open>blit\<close> stores \<^verbatim>\<open>int(xo)\<close>, \<^verbatim>\<open>subpixel_blit\<close> stores
  \<^verbatim>\<open>float(xo)\<close> and \<^verbatim>\<open>absolute_blit\<close> stores \<^verbatim>\<open>absolute(xo)\<close>.
\<close>

datatype coord = IntC int | FloatC real | AbsoluteC real

type_synonym child = "pyobj \<times> coord \<times> coord \<times> bool \<times> bool"

text \<open>A focus is the tuple \<^verbatim>\<open>(d, arg, x, y, w, h, mx, my, mask)\<close>; \<open>None\<close> is \<^verbatim>\<open>None\<close>.\<close>

type_synonym focus =
  "did \<times> nat \<times> real option \<times> real option \<times> real option \<times> real option
     \<times> real option \<times> real option \<times> pyobj option"

text \<open>
  The fields of \<^verbatim>\<open>Render\<close> that the cache, the dependency graph and the collector read
  or write. \<open>parents\<close> is a Python set: it is kept as a list without duplicates, in
  insertion order.
\<close>

record render_node =
  mark :: bool
  cache_killed :: bool
  killed :: bool
  width :: real
  height :: real
  children :: "child list"
  focuses :: "focus list option"
  pass_focuses :: "rid list option"
  render_of :: "did list"
  parents :: "rid list"
  depends_on_list :: "rid list"
  uniforms :: "(string \<times> pyobj) list option"
  uniforms_has_render :: bool
  cached_texture :: "nat option"
  cached_model :: "nat option"
  debug :: bool

text \<open>A cache key is \<^verbatim>\<open>(width, height, frame_time - st, frame_time - at')\<close>.\<close>

type_synonym key = "real \<times> real \<times> real \<times> real"

text \<open>
  The globals of the module. Dictionaries are association lists with one pair per key, in
  insertion order. \<open>render_calls\<close> is not a variable of the source: it is the log of
  the calls \<^verbatim>\<open>d.render(width, height, st, at)\<close> that \<^verbatim>\<open>render\<close> makes, kept to
  count them.
\<close>

record state =
  heap :: "render_node list"
  render_cache :: "(did \<times> (key \<times> rid) list) list"
  live_renders :: "rid list"
  screen_render :: "rid option"
  frame_time :: real
  sizing :: bool
  rendering :: int
  render_st :: real
  render_at :: real
  render_width :: real
  render_height :: real
  render_is_ready :: bool
  models :: bool
  render_calls :: "(did \<times> real \<times> real \<times> real \<times> real) list"

type_synonym 'a outcome = "(error + 'a) \<times> state"

subsection \<open>Heap access\<close>

definition upd_node :: "rid \<Rightarrow> (render_node \<Rightarrow> render_node) \<Rightarrow> state \<Rightarrow> state" where
  "upd_node n f s = s\<lparr>heap := (heap s)[n := f (heap s ! n)]\<rparr>"

text \<open>
  \<^verbatim>\<open>Render.__init__(self, float width, float height)\<close>: the new node, which the
  constructor appends to \<^verbatim>\<open>live_renders\<close>. The sizes are C floats.
\<close>

definition init_node :: "real \<Rightarrow> real \<Rightarrow> render_node" where
  "init_node w h =
     \<lparr>mark = False, cache_killed = False, killed = False, width = w, height = h,
      children = [], focuses = None, pass_focuses = None, render_of = [], parents = [],
      depends_on_list = [], uniforms = None, uniforms_has_render = False,
      cached_texture = None, cached_model = None, debug = False\<rparr>"

definition new_render :: "real \<Rightarrow> real \<Rightarrow> state \<Rightarrow> rid \<times> state" where
  "new_render w h s =
     (length (heap s),
      s\<lparr>heap := heap s @ [init_node (float32 w) (float32 h)],
        live_renders := live_renders s @ [length (heap s)]\<rparr>)"

text \<open>\<^verbatim>\<open>set.add\<close> and \<^verbatim>\<open>set.discard\<close> on the list that stands for a set.\<close>

definition set_add :: "'a \<Rightarrow> 'a list \<Rightarrow> 'a list" where
  "set_add x xs = (if x \<in> set xs then xs else xs @ [x])"

definition set_discard :: "'a \<Rightarrow> 'a list \<Rightarrow> 'a list" where
  "set_discard x xs = removeAll x xs"

subsection \<open>compute\_subline\<close>

text \<open>
  \<^verbatim>\<open>Render.compute_subline(sx, sw, cx, cw, bx, bw)\<close> returns
  \<^verbatim>\<open>(offset, crop, width)\<close>. It reads no field of the node; \<^verbatim>\<open>bw\<close> is not used.
  \<^verbatim>\<open>subsurface\<close> calls it with the integer offsets and sizes of children, hence \<open>int\<close>.
\<close>

definition compute_subline :: "int \<Rightarrow> int \<Rightarrow> int \<Rightarrow> int \<Rightarrow> int \<Rightarrow> int \<Rightarrow> int \<times> int \<times> int" where
  "compute_subline sx sw cx cw bx bw =
     (let s_end = sx + sw;
          c_end = cx + cw;
          start = max sx cx;
          offset = start - cx;
          crop = start - sx;
          end = min s_end c_end;
          width = end - start;
          bsx = max sx bx
      in if bsx < 0 then (offset + bsx, crop + bsx, width - bsx)
         else (offset, crop, width))"

subsection \<open>Blitting and dependencies\<close>

text \<open>\<^verbatim>\<open>int(x)\<close> of a number truncates towards zero.\<close>

definition py_int :: "real \<Rightarrow> int" where
  "py_int x = (if x < 0 then \<lceil>x\<rceil> else \<lfloor>x\<rfloor>)"

text \<open>
  \<^verbatim>\<open>list.insert(index, x)\<close>: a negative index counts from the end, and an index beyond
  either end is clamped to it.
\<close>

definition py_insert :: "int \<Rightarrow> 'a \<Rightarrow> 'a list \<Rightarrow> 'a list" where
  "py_insert i x xs =
     (let n = int (length xs);
          j = (if i < 0 then max 0 (i + n) else min i n)
      in take (nat j) xs @ [x] @ drop (nat j) xs)"

text \<open>
  The body shared by the three blit variants after the offsets are converted:
  \<^verbatim>\<open>renpy.display.draw.load_texture\<close> is the drawing backend's and is a parameter.
\<close>

definition blit_common ::
  "(nat \<Rightarrow> nat) \<Rightarrow> rid \<Rightarrow> pyobj \<Rightarrow> coord \<times> coord \<Rightarrow> bool \<Rightarrow> bool \<Rightarrow> int option \<Rightarrow> state \<Rightarrow> int outcome" where
  "blit_common load_texture self source pos focus main index s =
     (let source = (case source of
                      Surface k \<Rightarrow> if models s then Other (load_texture k) else Surface k
                    | _ \<Rightarrow> source);
          (xo, yo) = pos;
          c = (source, xo, yo, focus, main);
          s1 = upd_node self (\<lambda>r. r\<lparr>children :=
                  (case index of None \<Rightarrow> children r @ [c]
                   | Some i \<Rightarrow> py_insert i c (children r))\<rparr>) s;
          s2 = (case source of
                  Render src \<Rightarrow>
                    upd_node src (\<lambda>r. r\<lparr>parents := set_add self (parents r)\<rparr>)
                      (upd_node self (\<lambda>r. r\<lparr>depends_on_list := depends_on_list r @ [src]\<rparr>) s1)
                | _ \<Rightarrow> s1)
      in (Inr 0, s2))"

definition blit ::
  "(nat \<Rightarrow> nat) \<Rightarrow> rid \<Rightarrow> pyobj \<Rightarrow> real \<times> real \<Rightarrow> bool \<Rightarrow> bool \<Rightarrow> int option \<Rightarrow> state \<Rightarrow> int outcome" where
  "blit load_texture self source pos focus main index s =
     (if source = Render self then (Inl (Exception ''Blitting to self.''), s)
      else blit_common load_texture self source
             (IntC (py_int (fst pos)), IntC (py_int (snd pos))) focus main index s)"

definition subpixel_blit ::
  "(nat \<Rightarrow> nat) \<Rightarrow> rid \<Rightarrow> pyobj \<Rightarrow> real \<times> real \<Rightarrow> bool \<Rightarrow> bool \<Rightarrow> int option \<Rightarrow> state \<Rightarrow> int outcome" where
  "subpixel_blit load_texture self source pos focus main index s =
     (if source = Render self then (Inl (Exception ''Blitting to self.''), s)
      else blit_common load_texture self source
             (FloatC (fst pos), FloatC (snd pos)) focus main index s)"

definition absolute_blit ::
  "(nat \<Rightarrow> nat) \<Rightarrow> rid \<Rightarrow> pyobj \<Rightarrow> real \<times> real \<Rightarrow> bool \<Rightarrow> bool \<Rightarrow> int option \<Rightarrow> state \<Rightarrow> int outcome" where
  "absolute_blit load_texture self source pos focus main index s =
     (if source = Render self then (Inl (Exception ''Blitting to self.''), s)
      else blit_common load_texture self source
             (AbsoluteC (fst pos), AbsoluteC (snd pos)) focus main index s)"

text \<open>
  \<^verbatim>\<open>Render.depends_on(source, focus=False)\<close>. The source is a \<^verbatim>\<open>Render\<close>: the method
  reads \<^verbatim>\<open>source.parents\<close>.
\<close>

definition depends_on :: "rid \<Rightarrow> rid \<Rightarrow> bool \<Rightarrow> state \<Rightarrow> unit outcome" where
  "depends_on self source focus s =
     (if source = self then (Inl (Exception ''Render depends on itself.''), s)
      else
        let s1 = upd_node self (\<lambda>r. r\<lparr>depends_on_list := depends_on_list r @ [source]\<rparr>) s;
            s2 = upd_node source (\<lambda>r. r\<lparr>parents := set_add self (parents r)\<rparr>) s1;
            s3 = (if focus
                  then upd_node self (\<lambda>r. r\<lparr>pass_focuses :=
                         (case pass_focuses r of None \<Rightarrow> Some [source]
                          | Some l \<Rightarrow> Some (l @ [source]))\<rparr>) s2
                  else s2)
        in (Inr (), s3))"



subsection \<open>The render cache\<close>

text \<open>
  \<^verbatim>\<open>render_cache\<close> is a \<^verbatim>\<open>defaultdict(dict)\<close>: reading \<^verbatim>\<open>render_cache[id_d]\<close>
  for an absent \<^verbatim>\<open>id_d\<close> stores an empty dictionary there (\<open>cache_touch\<close>).
  \<open>cache_get\<close> is \<^verbatim>\<open>render_cache[id_d].get(k, None)\<close> without that effect, and
  \<open>cache_put\<close> is \<^verbatim>\<open>render_cache[id_d][k] = rv\<close>.
\<close>

definition cache_touch :: "did \<Rightarrow> state \<Rightarrow> state" where
  "cache_touch d s =
     (if d \<in> fst ` set (render_cache s) then s
      else s\<lparr>render_cache := render_cache s @ [(d, [])]\<rparr>)"

definition cache_get :: "state \<Rightarrow> did \<Rightarrow> key \<Rightarrow> rid option" where
  "cache_get s d k =
     (case map_of (render_cache s) d of None \<Rightarrow> None | Some c \<Rightarrow> map_of c k)"

definition cache_put :: "did \<Rightarrow> key \<Rightarrow> rid \<Rightarrow> state \<Rightarrow> state" where
  "cache_put d k rv s =
     s\<lparr>render_cache :=
         AList.update d
           (AList.update k rv (case map_of (render_cache s) d of None \<Rightarrow> [] | Some c \<Rightarrow> c))
           (render_cache s)\<rparr>"

text \<open>
  \<^verbatim>\<open>adjust_render_cache_times(old_time, new_time)\<close>. A displayable's dictionary is
  rebuilt only when one of its keys has \<^verbatim>\<open>k[2] == old_time\<close> (the \<^verbatim>\<open>for ... else:
  continue\<close>); the rebuilt dictionary is filled in iteration order.
\<close>

definition rebase_key :: "real \<Rightarrow> real \<Rightarrow> key \<Rightarrow> key" where
  "rebase_key old_time new_time k =
     (case k of (w, h, st_base, at_base) \<Rightarrow>
        (w, h, if st_base = old_time then new_time else st_base,
               if at_base = old_time then new_time else at_base))"

definition rebase_renders :: "real \<Rightarrow> real \<Rightarrow> (key \<times> rid) list \<Rightarrow> (key \<times> rid) list" where
  "rebase_renders old_time new_time renders =
     fold (\<lambda>(k, v) new_renders. AList.update (rebase_key old_time new_time k) v new_renders)
       renders []"

definition has_st_base :: "real \<Rightarrow> (key \<times> rid) list \<Rightarrow> bool" where
  "has_st_base old_time renders = list_ex (\<lambda>(k, v). fst (snd (snd k)) = old_time) renders"

definition adjust_render_cache_times :: "real \<Rightarrow> real \<Rightarrow> state \<Rightarrow> state" where
  "adjust_render_cache_times old_time new_time s =
     s\<lparr>render_cache :=
         map (\<lambda>(id_d, renders).
                if has_st_base old_time renders
                then (id_d, rebase_renders old_time new_time renders)
                else (id_d, renders))
             (render_cache s)\<rparr>"

subsection \<open>Displayables and the collaborators of render\<close>

text \<open>A style's maximum is a Python number, an \<^verbatim>\<open>int\<close> or a \<^verbatim>\<open>float\<close>.\<close>

datatype number = PyInt int | PyFloat real

text \<open>
  What \<^verbatim>\<open>render\<close> reads of a displayable: \<^verbatim>\<open>id(d)\<close>, \<^verbatim>\<open>d.style.xmaximum\<close>,
  \<^verbatim>\<open>d.style.ymaximum\<close>, \<^verbatim>\<open>d._offer_size\<close>, \<^verbatim>\<open>d._clipping\<close>,
  \<^verbatim>\<open>d.style.debug\<close>, and the method \<^verbatim>\<open>d.render(width, height, st, at)\<close>, which is
  user code: any function of the state that returns an object or raises.
\<close>

record displayable =
  ident :: did
  xmaximum :: "number option"
  ymaximum :: "number option"
  offer_size :: "(real \<times> real) option"
  clipping :: bool
  style_debug :: bool
  render_cb :: "real \<Rightarrow> real \<Rightarrow> real \<Rightarrow> real \<Rightarrow> state \<Rightarrow> pyobj outcome"

text \<open>
  Code that \<^verbatim>\<open>render\<close> calls and that is not part of this development:
  \<^verbatim>\<open>renpy.config.developer\<close>, \<^verbatim>\<open>renpy.display.core.absolute.compute_raw\<close> (another
  module), and \<^verbatim>\<open>Render.subsurface\<close>, which no property below is about. The latter
  reads and builds nodes only, so it is given the heap and returns the heap; the state
  then records the nodes it constructed in \<^verbatim>\<open>live_renders\<close>, as \<^verbatim>\<open>Render.__init__\<close>
  does.
\<close>

record env =
  developer :: bool
  compute_raw :: "number \<Rightarrow> real \<Rightarrow> real"
  subsurface :: "rid \<Rightarrow> real \<times> real \<times> real \<times> real \<Rightarrow> bool \<Rightarrow> render_node list
                   \<Rightarrow> (error + rid) \<times> render_node list"

definition set_heap :: "render_node list \<Rightarrow> state \<Rightarrow> state" where
  "set_heap h s =
     s\<lparr>heap := h, live_renders := live_renders s @ [length (heap s)..<length h]\<rparr>"

subsection \<open>render\<close>

text \<open>
  Lines 219 to 238: the C floats \<^verbatim>\<open>width\<close> and \<^verbatim>\<open>height\<close>. Each assignment to
  them converts a Python number to a float.
\<close>

definition float_size :: "env \<Rightarrow> displayable \<Rightarrow> real \<Rightarrow> real \<Rightarrow> real \<times> real" where
  "float_size env d widtho heighto =
     (let (width, height) = (case offer_size d of
                               None \<Rightarrow> (float32 widtho, float32 heighto)
                             | Some (ow, oh) \<Rightarrow> (float32 ow, float32 oh));
          width = (case xmaximum d of None \<Rightarrow> width
                   | Some xm \<Rightarrow> float32 (min (compute_raw env xm width) width));
          height = (case ymaximum d of None \<Rightarrow> height
                    | Some ym \<Rightarrow> float32 (min (compute_raw env ym height) height));
          width = (if width < 0 then 0 else width);
          height = (if height < 0 then 0 else height)
      in (width, height))"

text \<open>
  Lines 278 to 291: the debug flag, then the two stores unless \<^verbatim>\<open>sizing\<close> is set.
  \<^verbatim>\<open>wh is not orig_wh\<close> holds exactly when the size was clamped, and then the two keys
  differ.
\<close>

definition render_finish :: "displayable \<Rightarrow> rid \<Rightarrow> key \<Rightarrow> key \<Rightarrow> state \<Rightarrow> rid outcome" where
  "render_finish d rv wh orig_wh s =
     (let s1 = upd_node rv (\<lambda>r. r\<lparr>debug := (style_debug d \<or> debug r)\<rparr>) s;
          s2 = (if \<not> sizing s1
                then let a = cache_put (ident d) wh rv s1
                     in if wh \<noteq> orig_wh then cache_put (ident d) orig_wh rv a else a
                else s1)
      in (Inr rv, s2))"

text \<open>Lines 269 to 276: the node is tagged with the displayable, and clipped if asked.\<close>

definition render_store :: "env \<Rightarrow> displayable \<Rightarrow> rid \<Rightarrow> key \<Rightarrow> key \<Rightarrow> state \<Rightarrow> rid outcome" where
  "render_store env d rv wh orig_wh s =
     (let s1 = upd_node rv (\<lambda>r. r\<lparr>render_of := render_of r @ [ident d],
                                  cache_killed := False\<rparr>) s
      in if clipping d
         then (case subsurface env rv (0, 0, width (heap s1 ! rv), height (heap s1 ! rv)) True
                      (heap s1) of
                 (Inl e, h) \<Rightarrow> (Inl e, set_heap h s1)
               | (Inr rv', h) \<Rightarrow>
                   render_finish d rv' wh orig_wh
                     (upd_node rv' (\<lambda>r. r\<lparr>render_of := render_of r @ [ident d]\<rparr>)
                        (set_heap h s1)))
         else render_finish d rv wh orig_wh s1)"

text \<open>
  Lines 254 to 267: the call of \<^verbatim>\<open>d.render\<close> inside \<^verbatim>\<open>try ... finally\<close>, and the
  check of what it returned. \<open>enter_call\<close> is the state the callback starts in,
  \<open>leave_call\<close> is the \<^verbatim>\<open>finally\<close> clause. The result is assigned to \<^verbatim>\<open>rv\<close>,
  declared \<^verbatim>\<open>cdef Render\<close>: the assignment, still inside the \<^verbatim>\<open>try\<close>, accepts a
  \<^verbatim>\<open>Render\<close> or \<^verbatim>\<open>None\<close> and raises \<^verbatim>\<open>TypeError\<close> for anything else; the test
  of line 266 then refuses \<^verbatim>\<open>None\<close>.
\<close>

definition enter_call :: "displayable \<Rightarrow> key \<Rightarrow> real \<Rightarrow> real \<Rightarrow> state \<Rightarrow> state" where
  "enter_call d wh st at' s =
     s\<lparr>rendering := rendering s + 1, render_st := st, render_at := at',
       render_calls := render_calls s @ [(ident d, fst wh, fst (snd wh), st, at')]\<rparr>"

definition leave_call :: "state \<Rightarrow> state \<Rightarrow> state" where
  "leave_call s s2 =
     s2\<lparr>rendering := rendering s2 - 1, render_st := render_st s, render_at := render_at s\<rparr>"

definition render_call :: "env \<Rightarrow> displayable \<Rightarrow> key \<Rightarrow> key \<Rightarrow> real \<Rightarrow> real \<Rightarrow> state \<Rightarrow> rid outcome" where
  "render_call env d wh orig_wh st at' s =
     (case render_cb d (fst wh) (fst (snd wh)) st at' (enter_call d wh st at' s) of
        (Inl e, s2) \<Rightarrow> (Inl e, leave_call s s2)
      | (Inr (Render rv), s2) \<Rightarrow> render_store env d rv wh orig_wh (leave_call s s2)
      | (Inr NoneObj, s2) \<Rightarrow>
          (Inl (Exception ''render() must return a Render.''), leave_call s s2)
      | (Inr _, s2) \<Rightarrow>
          (Inl (TypeError ''Cannot convert to renpy.display.render.Render''), leave_call s s2))"

text \<open>
  Lines 219 to 250: the test of line 240 compares the floats; if they differ, the floats
  replace the requested size, in the key of the second lookup and in the call.
\<close>

definition render_miss :: "env \<Rightarrow> displayable \<Rightarrow> real \<Rightarrow> real \<Rightarrow> real \<Rightarrow> real \<Rightarrow> key \<Rightarrow> state \<Rightarrow> rid outcome" where
  "render_miss env d widtho heighto st at' orig_wh s =
     (let (width, height) = float_size env d widtho heighto
      in if float32 widtho \<noteq> width \<or> float32 heighto \<noteq> height
         then let wh = (width, height, frame_time s - st, frame_time s - at')
              in (case cache_get s (ident d) wh of
                    Some rv \<Rightarrow> (Inr rv, s)
                  | None \<Rightarrow> render_call env d wh orig_wh st at' s)
         else render_call env d orig_wh orig_wh st at' s)"

definition render :: "env \<Rightarrow> displayable \<Rightarrow> real \<Rightarrow> real \<Rightarrow> real \<Rightarrow> real \<Rightarrow> state \<Rightarrow> rid outcome" where
  "render env d widtho heighto st at' s =
     (if \<not> render_is_ready s \<and> developer env
      then (Inl (Exception ''Displayables may not be rendered during the init phase.''), s)
      else
        let orig_wh = (widtho, heighto, frame_time s - st, frame_time s - at');
            s1 = cache_touch (ident d) (s\<lparr>render_width := widtho, render_height := heighto\<rparr>)
        in case cache_get s1 (ident d) orig_wh of
             Some rv \<Rightarrow> (Inr rv, s1)
           | None \<Rightarrow> render_miss env d widtho heighto st at' orig_wh s1)"

definition render_for_size :: "env \<Rightarrow> displayable \<Rightarrow> real \<Rightarrow> real \<Rightarrow> real \<Rightarrow> real \<Rightarrow> state \<Rightarrow> rid outcome" where
  "render_for_size env d w h st at' s =
     (let orig_wh = (w, h, frame_time s - st, frame_time s - at');
          s1 = cache_touch (ident d) s
      in case cache_get s1 (ident d) orig_wh of
           Some rv \<Rightarrow> (Inr rv, s1)
         | None \<Rightarrow>
             let old_sizing = sizing s1;
                 (r, s2) = render env d w h st at' (s1\<lparr>sizing := True\<rparr>)
             in (r, s2\<lparr>sizing := old_sizing\<rparr>))"

text \<open>
  \<^verbatim>\<open>render_screen(root, width, height)\<close>; the interface's \<^verbatim>\<open>interact_time\<close> and
  \<^verbatim>\<open>frame_time\<close> are arguments.
\<close>

definition render_screen ::
  "env \<Rightarrow> real option \<Rightarrow> real \<Rightarrow> displayable \<Rightarrow> real \<Rightarrow> real \<Rightarrow> state \<Rightarrow> rid outcome" where
  "render_screen env interact_time interface_frame_time root_d w h s =
     (let s1 = s\<lparr>frame_time := interface_frame_time\<rparr>;
          st = (case interact_time of None \<Rightarrow> 0 | Some t \<Rightarrow> frame_time s1 - t)
      in case render env root_d w h st st s1 of
           (Inl e, s2) \<Rightarrow> (Inl e, s2)
         | (Inr rv, s2) \<Rightarrow> (Inr rv, s2\<lparr>screen_render := Some rv\<rparr>))"

text \<open>The number of calls of \<^verbatim>\<open>d.render\<close> that \<^verbatim>\<open>render\<close> has made for one displayable.\<close>

definition calls_of :: "did \<Rightarrow> state \<Rightarrow> (did \<times> real \<times> real \<times> real \<times> real) list" where
  "calls_of d s = filter (\<lambda>c. fst c = d) (render_calls s)"

subsection \<open>Removing a node from the cache\<close>

text \<open>
  The loop \<^verbatim>\<open>for ro in self.render_of\<close> of \<^verbatim>\<open>kill_cache\<close> (lines 1142 to 1151) and of
  \<^verbatim>\<open>kill\<close> (lines 1171 to 1180). One round removes every entry of \<^verbatim>\<open>render_cache[id_ro]\<close>
  whose value is the node, and deletes the dictionary when it is left empty.
\<close>

definition cache_remove :: "rid \<Rightarrow> did \<Rightarrow> state \<Rightarrow> state" where
  "cache_remove self id_ro s =
     (let cache = filter (\<lambda>(k, v). v \<noteq> self)
                    (case map_of (render_cache s) id_ro of None \<Rightarrow> [] | Some c \<Rightarrow> c)
      in if cache = [] then s\<lparr>render_cache := AList.delete id_ro (render_cache s)\<rparr>
         else s\<lparr>render_cache := AList.update id_ro cache (render_cache s)\<rparr>)"

definition uncache :: "rid \<Rightarrow> state \<Rightarrow> state" where
  "uncache self s = fold (cache_remove self) (render_of (heap s ! self)) s"

lemma upd_node_fields [simp]:
  "render_cache (upd_node n f s) = render_cache s"
  "live_renders (upd_node n f s) = live_renders s"
  "screen_render (upd_node n f s) = screen_render s"
  "frame_time (upd_node n f s) = frame_time s"
  "sizing (upd_node n f s) = sizing s"
  "render_is_ready (upd_node n f s) = render_is_ready s"
  "render_calls (upd_node n f s) = render_calls s"
  "length (heap (upd_node n f s)) = length (heap s)"
  by (simp_all add: upd_node_def)

lemma nth_upd_node:
  "heap (upd_node n f s) ! j
     = (if j = n \<and> n < length (heap s) then f (heap s ! n) else heap s ! j)"
  by (cases "n < length (heap s)") (auto simp: upd_node_def nth_list_update list_update_beyond)

lemma heap_cache_remove [simp]: "heap (cache_remove self d s) = heap s"
  by (simp add: cache_remove_def Let_def)

lemma heap_fold_cache_remove [simp]: "heap (fold (cache_remove self) ds s) = heap s"
  by (induction ds arbitrary: s) simp_all

lemma heap_uncache [simp]: "heap (uncache self s) = heap s"
  by (simp add: uncache_def)

subsection \<open>kill\_cache\<close>

text \<open>
  \<^verbatim>\<open>Render.kill_cache\<close> (lines 1129 to 1151). The loop over \<^verbatim>\<open>list(self.parents)\<close> is
  \<open>kill_cache_all\<close>: each call runs in the state the one before left. An identity
  beyond the heap is no object (the program cannot hold one), and the call does nothing.
  The recursion ends because every call that goes on sets a flag that was clear.
\<close>

definition uncached_count :: "state \<Rightarrow> nat" where
  "uncached_count s = card {i. i < length (heap s) \<and> \<not> cache_killed (heap s ! i)}"

function kill_cache :: "rid \<Rightarrow> state \<Rightarrow> state"
  and kill_cache_all :: "rid list \<Rightarrow> state \<Rightarrow> state" where
  "kill_cache self s =
     (if self < length (heap s) \<and> \<not> cache_killed (heap s ! self)
      then uncache self
             (kill_cache_all (parents (heap s ! self))
                (upd_node self (\<lambda>r. r\<lparr>cache_killed := True\<rparr>) s))
      else s)"
| "kill_cache_all [] s = s"
| "kill_cache_all (i # rest) s = kill_cache_all rest (kill_cache i s)"
  by pat_completeness auto

lemma card_flagged:
  assumes "n < length xs" and "\<not> P (xs ! n)" and "P v"
  shows "card {i. i < length (xs[n := v]) \<and> \<not> P (xs[n := v] ! i)}
           < card {i. i < length xs \<and> \<not> P (xs ! i)}"
proof -
  let ?A = "{i. i < length xs \<and> \<not> P (xs ! i)}"
  have eq: "{i. i < length (xs[n := v]) \<and> \<not> P (xs[n := v] ! i)} = ?A - {n}"
    using assms(1,3) by (auto simp: nth_list_update split: if_splits)
  have "finite ?A" by simp
  moreover have "n \<in> ?A" using assms(1,2) by simp
  ultimately have "card (?A - {n}) < card ?A" by (rule card_Diff1_less)
  with eq show ?thesis by (simp only:)
qed

lemma uncached_count_flag:
  assumes "n < length (heap s)" and "\<not> cache_killed (heap s ! n)"
  shows "uncached_count (upd_node n (\<lambda>r. r\<lparr>cache_killed := True\<rparr>) s) < uncached_count s"
  using card_flagged [of n "heap s" cache_killed "(heap s ! n)\<lparr>cache_killed := True\<rparr>", OF assms]
  by (simp add: uncached_count_def upd_node_def)

lemma kill_cache_count:
  "kill_cache_kill_cache_all_dom (Inl (self, s)) \<Longrightarrow> uncached_count (kill_cache self s) \<le> uncached_count s"
  "kill_cache_kill_cache_all_dom (Inr (l, s)) \<Longrightarrow> uncached_count (kill_cache_all l s) \<le> uncached_count s"
proof (induction self s and l s rule: kill_cache_kill_cache_all.pinduct)
  case (1 self s)
  show ?case
  proof (cases "self < length (heap s) \<and> \<not> cache_killed (heap s ! self)")
    case True
    let ?s1 = "upd_node self (\<lambda>r. r\<lparr>cache_killed := True\<rparr>) s"
    from True have "uncached_count ?s1 < uncached_count s" by (simp add: uncached_count_flag)
    moreover from 1 True have "uncached_count (kill_cache_all (parents (heap s ! self)) ?s1) \<le> uncached_count ?s1"
      by simp
    ultimately show ?thesis using 1(1) True
      by (simp add: kill_cache.psimps uncached_count_def)
  next
    case False
    with 1(1) show ?thesis by (auto simp: kill_cache.psimps)
  qed
next
  case (2 s)
  then show ?case by (simp add: kill_cache_all.psimps)
next
  case (3 i rest s)
  then show ?case by (simp add: kill_cache_all.psimps)
qed

text \<open>Every call of \<^verbatim>\<open>kill_cache\<close> returns: the recursion is well founded.\<close>

lemma kill_cache_total: "All kill_cache_kill_cache_all_dom"
proof (relation "measures [\<lambda>x. case x of Inl (n, s) \<Rightarrow> uncached_count s | Inr (l, s) \<Rightarrow> uncached_count s,
                           \<lambda>x. case x of Inl (n, s) \<Rightarrow> 0 | Inr (l, s) \<Rightarrow> Suc (length l)]", goal_cases)
  case 1
  show ?case by simp
next
  case (2 self s)
  then show ?case by (simp add: uncached_count_flag)
next
  case (3 i rest s)
  then show ?case by simp
next
  case (4 i rest s)
  then show ?case using kill_cache_count(1) [of i s] by auto
qed

termination kill_cache
  by (rule kill_cache_total)

declare kill_cache.simps [simp del]

subsection \<open>kill\<close>

text \<open>
  \<^verbatim>\<open>Render.kill\<close> (lines 1153 to 1197). \<open>kill_finish\<close> is what follows the loop over
  the parents: the parents set is cleared, the node is discarded from the parents of its
  dependencies, its cache entries are removed, its lists are emptied if it has
  dependencies, and its focuses and cached textures are dropped.
\<close>

definition discard_from_dependencies :: "rid \<Rightarrow> state \<Rightarrow> state" where
  "discard_from_dependencies self s =
     fold (\<lambda>i. upd_node i (\<lambda>r. r\<lparr>parents := set_discard self (parents r)\<rparr>))
       (depends_on_list (heap s ! self)) s"

definition break_references :: "rid \<Rightarrow> state \<Rightarrow> state" where
  "break_references self s =
     (if depends_on_list (heap s ! self) \<noteq> []
      then upd_node self (\<lambda>r. r\<lparr>depends_on_list := [], render_of := [], children := []\<rparr>) s
      else s)"

definition kill_finish :: "rid \<Rightarrow> state \<Rightarrow> state" where
  "kill_finish self s =
     upd_node self (\<lambda>r. r\<lparr>focuses := None, pass_focuses := None,
                             cached_texture := None, cached_model := None\<rparr>)
       (break_references self
          (uncache self
             (discard_from_dependencies self
                (upd_node self (\<lambda>r. r\<lparr>parents := []\<rparr>) s))))"

definition unkilled_count :: "state \<Rightarrow> nat" where
  "unkilled_count s = card {i. i < length (heap s) \<and> \<not> killed (heap s ! i)}"

lemma length_heap_fold_upd [simp]:
  "length (heap (fold (\<lambda>i. upd_node i (f i)) l s)) = length (heap s)"
  by (induction l arbitrary: s) simp_all

lemma killed_fold_discard [simp]:
  "killed (heap (fold (\<lambda>i. upd_node i (\<lambda>r. r\<lparr>parents := g i r\<rparr>)) l s) ! j) = killed (heap s ! j)"
proof (induction l arbitrary: s)
  case Nil
  show ?case by simp
next
  case (Cons i l)
  have "killed (heap (upd_node i (\<lambda>r. r\<lparr>parents := g i r\<rparr>) s) ! j) = killed (heap s ! j)"
    by (simp add: nth_upd_node)
  with Cons show ?case by simp
qed

lemma killed_upd_other:
  "(\<And>r. killed (f r) = killed r) \<Longrightarrow> killed (heap (upd_node n f s) ! j) = killed (heap s ! j)"
  by (simp add: nth_upd_node)

lemma kill_finish_killed [simp]:
  "length (heap (kill_finish self s)) = length (heap s)"
  "killed (heap (kill_finish self s) ! j) = killed (heap s ! j)"
  by (simp_all add: kill_finish_def break_references_def discard_from_dependencies_def
        killed_upd_other)

lemma unkilled_count_kill_finish [simp]: "unkilled_count (kill_finish self s) = unkilled_count s"
  by (simp add: unkilled_count_def)

function kill :: "rid \<Rightarrow> state \<Rightarrow> state"
  and kill_all :: "rid list \<Rightarrow> state \<Rightarrow> state" where
  "kill self s =
     (if self < length (heap s) \<and> \<not> killed (heap s ! self)
      then kill_finish self
             (kill_all (parents (heap s ! self))
                (upd_node self (\<lambda>r. r\<lparr>killed := True\<rparr>) s))
      else s)"
| "kill_all [] s = s"
| "kill_all (i # rest) s = kill_all rest (kill i s)"
  by pat_completeness auto

lemma unkilled_count_flag:
  assumes "n < length (heap s)" and "\<not> killed (heap s ! n)"
  shows "unkilled_count (upd_node n (\<lambda>r. r\<lparr>killed := True\<rparr>) s) < unkilled_count s"
  using card_flagged [of n "heap s" killed "(heap s ! n)\<lparr>killed := True\<rparr>", OF assms]
  by (simp add: unkilled_count_def upd_node_def)

lemma kill_count:
  "kill_kill_all_dom (Inl (self, s)) \<Longrightarrow> unkilled_count (kill self s) \<le> unkilled_count s"
  "kill_kill_all_dom (Inr (l, s)) \<Longrightarrow> unkilled_count (kill_all l s) \<le> unkilled_count s"
proof (induction self s and l s rule: kill_kill_all.pinduct)
  case (1 self s)
  show ?case
  proof (cases "self < length (heap s) \<and> \<not> killed (heap s ! self)")
    case True
    let ?s1 = "upd_node self (\<lambda>r. r\<lparr>killed := True\<rparr>) s"
    from True have "unkilled_count ?s1 < unkilled_count s" by (simp add: unkilled_count_flag)
    moreover from 1 True have "unkilled_count (kill_all (parents (heap s ! self)) ?s1) \<le> unkilled_count ?s1"
      by simp
    ultimately show ?thesis using 1(1) True
      by (simp add: kill.psimps)
  next
    case False
    with 1(1) show ?thesis by (auto simp: kill.psimps)
  qed
next
  case (2 s)
  then show ?case by (simp add: kill_all.psimps)
next
  case (3 i rest s)
  then show ?case by (simp add: kill_all.psimps)
qed

text \<open>Every call of \<^verbatim>\<open>kill\<close> returns.\<close>

lemma kill_total: "All kill_kill_all_dom"
proof (relation "measures [\<lambda>x. case x of Inl (n, s) \<Rightarrow> unkilled_count s | Inr (l, s) \<Rightarrow> unkilled_count s,
                           \<lambda>x. case x of Inl (n, s) \<Rightarrow> 0 | Inr (l, s) \<Rightarrow> Suc (length l)]", goal_cases)
  case 1
  show ?case by simp
next
  case (2 self s)
  then show ?case by (simp add: unkilled_count_flag)
next
  case (3 i rest s)
  then show ?case by simp
next
  case (4 i rest s)
  then show ?case using kill_count(1) [of i s] by auto
qed

termination kill
  by (rule kill_total)

declare kill.simps [simp del]

subsection \<open>mark\_sweep\<close>

text \<open>
  What \<^verbatim>\<open>mark_sweep\<close> reads of other modules:
  \<^verbatim>\<open>renpy.display.im.cache.get_renders()\<close>, \<^verbatim>\<open>renpy.emscripten\<close> and the values of
  \<^verbatim>\<open>renpy.display.video.texture\<close>.
\<close>

record gc_env =
  im_cache_renders :: "rid list"
  emscripten :: bool
  video_textures :: "pyobj list"

definition set_mark :: "bool \<Rightarrow> rid \<Rightarrow> state \<Rightarrow> state" where
  "set_mark b r s = upd_node r (\<lambda>n. n\<lparr>mark := b\<rparr>) s"

text \<open>
  The inner loop \<^verbatim>\<open>for j in r.depends_on_list\<close> (lines 522 to 525), on the worklist and
  the state.
\<close>

fun mark_deps :: "rid list \<Rightarrow> rid list \<times> state \<Rightarrow> rid list \<times> state" where
  "mark_deps [] (worklist, s) = (worklist, s)"
| "mark_deps (j # js) (worklist, s) =
     (if j < length (heap s) \<and> \<not> mark (heap s ! j)
      then mark_deps js (worklist @ [j], set_mark True j s)
      else mark_deps js (worklist, s))"

definition unmarked_count :: "state \<Rightarrow> nat" where
  "unmarked_count s = card {i. i < length (heap s) \<and> \<not> mark (heap s ! i)}"

lemma unmarked_count_flag:
  assumes "n < length (heap s)" and "\<not> mark (heap s ! n)"
  shows "unmarked_count (set_mark True n s) < unmarked_count s"
  using card_flagged [of n "heap s" mark "(heap s ! n)\<lparr>mark := True\<rparr>", OF assms]
  by (simp add: unmarked_count_def upd_node_def set_mark_def)

lemma mark_deps_measure:
  "mark_deps js (wl, s) = (wl', s') \<Longrightarrow>
     unmarked_count s' + length wl' \<le> unmarked_count s + length wl \<and> length wl \<le> length wl'"
proof (induction js arbitrary: wl s)
  case Nil
  then show ?case by simp
next
  case (Cons j js)
  show ?case
  proof (cases "j < length (heap s) \<and> \<not> mark (heap s ! j)")
    case True
    with Cons.prems have "mark_deps js (wl @ [j], set_mark True j s) = (wl', s')" by simp
    from Cons.IH [OF this] unmarked_count_flag [of j s] True show ?thesis by simp
  next
    case False
    with Cons.prems have "mark_deps js (wl, s) = (wl', s')" by auto
    from Cons.IH [OF this] show ?thesis .
  qed
qed

definition deps_of :: "state \<Rightarrow> rid \<Rightarrow> rid list" where
  "deps_of s r = (if r < length (heap s) then depends_on_list (heap s ! r) else [])"

text \<open>
  The loop \<^verbatim>\<open>while i < len(worklist)\<close> (lines 519 to 527). It ends because each node
  is appended at most once: it is marked when it is appended.
\<close>

function mark_loop :: "nat \<Rightarrow> rid list \<Rightarrow> state \<Rightarrow> rid list \<times> state" where
  "mark_loop i worklist s =
     (if i < length worklist
      then (case mark_deps (deps_of s (worklist ! i)) (worklist, s) of
              (worklist', s') \<Rightarrow> mark_loop (i + 1) worklist' s')
      else (worklist, s))"
  by pat_completeness auto

termination mark_loop
proof (relation "measure (\<lambda>(i, wl, s). unmarked_count s + length wl - i)", goal_cases)
  case 1
  show ?case by simp
next
  case (2 i worklist s x y)
  from 2(2) have e: "mark_deps (deps_of s (worklist ! i)) (worklist, s) = (x, y)" by simp
  from mark_deps_measure [OF e] 2(1) show ?case by (simp add: e) arith
qed

declare mark_loop.simps [simp del]

text \<open>
  The sweep (lines 535 to 539), one node of \<^verbatim>\<open>live_renders\<close> at a time, and the marking
  of the video textures (lines 529 to 533).
\<close>

definition sweep_one :: "rid \<Rightarrow> state \<Rightarrow> state" where
  "sweep_one r s = (if \<not> mark (heap s ! r) then kill r s else set_mark False r s)"

definition mark_video :: "pyobj \<Rightarrow> state \<Rightarrow> state" where
  "mark_video ob s = (case ob of Render r \<Rightarrow> set_mark True r s | _ \<Rightarrow> s)"

definition mark_sweep :: "gc_env \<Rightarrow> state \<Rightarrow> state" where
  "mark_sweep env s =
     (let worklist = (case screen_render s of None \<Rightarrow> [] | Some r \<Rightarrow> [r]) @ im_cache_renders env;
          s1 = fold (set_mark True) worklist s;
          (worklist, s2) = mark_loop 0 worklist s1;
          s3 = (if emscripten env then fold mark_video (video_textures env) s2 else s2);
          s4 = fold sweep_one (live_renders s3) s3
      in s4\<lparr>live_renders := worklist\<rparr>)"

text \<open>\<^verbatim>\<open>free_memory()\<close>, without the reset of the interface's \<^verbatim>\<open>surftree\<close>.\<close>

definition free_memory :: "gc_env \<Rightarrow> state \<Rightarrow> state" where
  "free_memory env s = (mark_sweep env (s\<lparr>screen_render := None\<rparr>))\<lparr>render_cache := []\<rparr>"

subsection \<open>Vocabulary of the properties\<close>

text \<open>
  The first lines of \<^verbatim>\<open>render\<close> (209 to 213): the requested size is published and
  \<^verbatim>\<open>render_cache[id_d]\<close> is read.
\<close>

definition begin_render :: "displayable \<Rightarrow> real \<Rightarrow> real \<Rightarrow> state \<Rightarrow> state" where
  "begin_render d w h s = cache_touch (ident d) (s\<lparr>render_width := w, render_height := h\<rparr>)"

text \<open>
  The size that reaches the callback, and that the first store uses: the floats if the test
  of line 240 finds them different from the requested size, the requested size as it came
  otherwise.
\<close>

definition clamp_size :: "env \<Rightarrow> displayable \<Rightarrow> real \<Rightarrow> real \<Rightarrow> real \<times> real" where
  "clamp_size env d widtho heighto =
     (let (width, height) = float_size env d widtho heighto
      in if float32 widtho \<noteq> width \<or> float32 heighto \<noteq> height
         then (width, height) else (widtho, heighto))"

text \<open>
  The key of the second lookup and of the first store: the clamped size at the frame-relative
  times. It is the requested key when clamping changes nothing.
\<close>

definition clamped_key :: "env \<Rightarrow> displayable \<Rightarrow> real \<Rightarrow> real \<Rightarrow> real \<Rightarrow> real \<Rightarrow> state \<Rightarrow> key" where
  "clamped_key env d w h st at' s =
     (fst (clamp_size env d w h), snd (clamp_size env d w h), frame_time s - st, frame_time s - at')"

text \<open>A request is answered from the cache when either lookup of \<^verbatim>\<open>render\<close> succeeds.\<close>

definition cache_hit :: "env \<Rightarrow> displayable \<Rightarrow> real \<Rightarrow> real \<Rightarrow> real \<Rightarrow> real \<Rightarrow> state \<Rightarrow> bool" where
  "cache_hit env d w h st at' s \<longleftrightarrow>
     cache_get s (ident d) (w, h, frame_time s - st, frame_time s - at') \<noteq> None
     \<or> cache_get s (ident d) (clamped_key env d w h st at' s) \<noteq> None"

text \<open>
  What the properties suppose of a displayable's \<^verbatim>\<open>render\<close> method, which is user
  code. \<open>callback_quiet\<close>: it does not itself call \<^verbatim>\<open>render\<close> on its own displayable
  (its calls for other displayables are free). \<open>callback_probes\<close>: started while
  \<^verbatim>\<open>sizing\<close> is set, it returns with \<^verbatim>\<open>sizing\<close> set and with no cache lookup
  succeeding that did not succeed before (\<open>cache_within\<close>); a method that renders its
  children with \<^verbatim>\<open>render\<close> and builds nodes is of that kind.
\<close>

definition cache_within :: "state \<Rightarrow> state \<Rightarrow> bool" where
  "cache_within s s' \<longleftrightarrow> (\<forall>d k v. cache_get s' d k = Some v \<longrightarrow> cache_get s d k = Some v)"




text \<open>
  The run of \<^verbatim>\<open>render_for_size\<close> when nothing is cached: \<open>probe_base\<close> is the state
  after \<^verbatim>\<open>sizing = True\<close> and the first lines of \<^verbatim>\<open>render\<close>, \<open>probe_start\<close> the
  state in which \<^verbatim>\<open>d.render\<close> starts. \<open>tag_node\<close> is what lines 269, 270 and 278 do
  to the node that \<^verbatim>\<open>d.render\<close> returned.
\<close>

definition probe_base :: "displayable \<Rightarrow> real \<Rightarrow> real \<Rightarrow> state \<Rightarrow> state" where
  "probe_base d w h s = begin_render d w h ((cache_touch (ident d) s)\<lparr>sizing := True\<rparr>)"





text \<open>
  The entries of the cache: the triples of a displayable, a key and a node such that the
  pair of the key and the node is in the displayable's dictionary. \<open>cache_get\<close> finds
  entries only.
\<close>

definition cache_entries :: "state \<Rightarrow> (did \<times> key \<times> rid) set" where
  "cache_entries s = {(d, k, v). \<exists>c. map_of (render_cache s) d = Some c \<and> (k, v) \<in> set c}"

text \<open>
  What a call of \<^verbatim>\<open>kill_cache\<close> may change between two states: the
  \<^verbatim>\<open>cache_killed\<close> flag of a node, which it can only set, and the cache, from which it
  can only remove. \<open>swept\<close>: a node whose flag was set in between has no entry left
  under the displayables it renders.
\<close>

definition kc_step :: "state \<Rightarrow> state \<Rightarrow> bool" where
  "kc_step s s' \<longleftrightarrow>
     length (heap s') = length (heap s)
     \<and> (\<forall>i<length (heap s).
           heap s' ! i = (heap s ! i)\<lparr>cache_killed := cache_killed (heap s' ! i)\<rparr>
           \<and> (cache_killed (heap s ! i) \<longrightarrow> cache_killed (heap s' ! i)))
     \<and> cache_entries s' \<subseteq> cache_entries s"

definition swept :: "state \<Rightarrow> state \<Rightarrow> bool" where
  "swept s s' \<longleftrightarrow>
     (\<forall>m<length (heap s). \<not> cache_killed (heap s ! m) \<and> cache_killed (heap s' ! m) \<longrightarrow>
        (\<forall>d\<in>set (render_of (heap s ! m)). \<forall>k. (d, k, m) \<notin> cache_entries s'))"

text \<open>
  A node as \<^verbatim>\<open>kill\<close> leaves it: \<open>cleared\<close> is the effect of the statements after
  the loop over the parents on the node itself. The lists of children and of displayables
  are emptied only if the node has dependencies (the condition of line 1188).
\<close>

definition cleared :: "render_node \<Rightarrow> render_node" where
  "cleared r =
     r\<lparr>parents := [],
       depends_on_list := [],
       render_of := (if depends_on_list r = [] then render_of r else []),
       children := (if depends_on_list r = [] then children r else []),
       focuses := None, pass_focuses := None, cached_texture := None, cached_model := None\<rparr>"

definition dead :: "render_node \<Rightarrow> render_node" where
  "dead r = cleared (r\<lparr>killed := True\<rparr>)"

text \<open>
  What calls of \<^verbatim>\<open>kill\<close> may change of a node between two states: either its
  \<^verbatim>\<open>killed\<close> flag is as before, and then only its parents set has changed, by losing
  nodes that are killed now; or the node has been killed, and is \<open>dead\<close>.
\<close>

definition kl_node :: "state \<Rightarrow> state \<Rightarrow> rid \<Rightarrow> bool" where
  "kl_node s s' i \<longleftrightarrow>
     (if killed (heap s' ! i) = killed (heap s ! i)
      then heap s' ! i = (heap s ! i)\<lparr>parents := parents (heap s' ! i)\<rparr>
           \<and> set (parents (heap s' ! i)) \<subseteq> set (parents (heap s ! i))
           \<and> (\<forall>b\<in>set (parents (heap s ! i)) - set (parents (heap s' ! i)).
                 b < length (heap s) \<and> killed (heap s' ! b))
      else killed (heap s' ! i) \<and> heap s' ! i = dead (heap s ! i))"

definition kl_step :: "state \<Rightarrow> state \<Rightarrow> bool" where
  "kl_step s s' \<longleftrightarrow>
     length (heap s') = length (heap s)
     \<and> (\<forall>i<length (heap s). kl_node s s' i)
     \<and> cache_entries s' \<subseteq> cache_entries s"

subsection \<open>Predicates for the garbage collection\<close>

text \<open>
  The dependency edges among the nodes of the heap, and the nodes that the mark phase can
  reach from a list of roots by following \<^verbatim>\<open>depends_on_list\<close>.
\<close>

definition dep_edges :: "state \<Rightarrow> (rid \<times> rid) set" where
  "dep_edges s = {(a, b). a < length (heap s) \<and> b < length (heap s)
                          \<and> b \<in> set (depends_on_list (heap s ! a))}"

definition reachable :: "state \<Rightarrow> rid list \<Rightarrow> rid set" where
  "reachable s roots = {m. \<exists>r\<in>set roots. r < length (heap s) \<and> (r, m) \<in> (dep_edges s)\<^sup>*}"

text \<open>
  The roots of a collection (the screen render, if there is one, and the renders of the
  image cache), and the nodes that the loop over \<^verbatim>\<open>renpy.display.video.texture\<close>
  marks on emscripten.
\<close>

definition gc_roots :: "gc_env \<Rightarrow> state \<Rightarrow> rid list" where
  "gc_roots env s = (case screen_render s of None \<Rightarrow> [] | Some r \<Rightarrow> [r]) @ im_cache_renders env"

definition spared :: "gc_env \<Rightarrow> rid \<Rightarrow> bool" where
  "spared env r \<longleftrightarrow> emscripten env \<and> Render r \<in> set (video_textures env)"

text \<open>
  The three phases of \<^verbatim>\<open>mark_sweep\<close> before the sweep: marking the roots and
  running the worklist, then marking the video textures.
\<close>

definition mark_phase :: "rid list \<Rightarrow> state \<Rightarrow> rid list \<times> state" where
  "mark_phase roots s = mark_loop 0 roots (fold (set_mark True) roots s)"

definition video_phase :: "gc_env \<Rightarrow> state \<Rightarrow> state" where
  "video_phase env s = (if emscripten env then fold mark_video (video_textures env) s else s)"

text \<open>
  \<open>mk_step\<close>: two states that differ in the marks of their nodes only.
  \<open>mark_inv\<close> is the invariant of the worklist loop started from state \<open>s0\<close>: the
  marked nodes are the nodes of the worklist, and they are reachable from the roots.
  \<open>processed\<close>: the dependencies of the first \<open>i\<close> nodes of the worklist are in the
  worklist.
\<close>

definition mk_step :: "state \<Rightarrow> state \<Rightarrow> bool" where
  "mk_step s s' \<longleftrightarrow>
     length (heap s') = length (heap s)
     \<and> (\<forall>i<length (heap s). heap s' ! i = (heap s ! i)\<lparr>mark := mark (heap s' ! i)\<rparr>)
     \<and> render_cache s' = render_cache s \<and> live_renders s' = live_renders s"

definition mark_inv :: "state \<Rightarrow> rid list \<Rightarrow> rid list \<Rightarrow> state \<Rightarrow> bool" where
  "mark_inv s0 roots wl s \<longleftrightarrow>
     mk_step s0 s
     \<and> (\<forall>m<length (heap s0). mark (heap s ! m) \<longleftrightarrow> m \<in> set wl)
     \<and> (\<forall>m\<in>set wl. m < length (heap s0) \<longrightarrow> m \<in> reachable s0 roots)
     \<and> set roots \<subseteq> set wl"

definition processed :: "state \<Rightarrow> nat \<Rightarrow> rid list \<Rightarrow> bool" where
  "processed s0 i wl \<longleftrightarrow>
     (\<forall>k<i. \<forall>j\<in>set (deps_of s0 (wl ! k)). j < length (heap s0) \<longrightarrow> j \<in> set wl)"

text \<open>
  \<open>prot s M\<close>: a node of \<open>M\<close> that is not killed is not a parent of a live node
  outside \<open>M\<close>, so that no call of \<^verbatim>\<open>kill\<close> on a node outside \<open>M\<close> goes up
  into \<open>M\<close>. \<open>keeps M s s'\<close>: the nodes of \<open>M\<close> have the \<^verbatim>\<open>killed\<close> flag
  they had.
\<close>

definition prot :: "state \<Rightarrow> rid set \<Rightarrow> bool" where
  "prot s M \<longleftrightarrow>
     (\<forall>x<length (heap s). x \<notin> M \<and> \<not> killed (heap s ! x) \<longrightarrow>
        (\<forall>p\<in>set (parents (heap s ! x)). p \<in> M \<and> p < length (heap s) \<longrightarrow> killed (heap s ! p)))"

definition keeps :: "rid set \<Rightarrow> state \<Rightarrow> state \<Rightarrow> bool" where
  "keeps M s s' \<longleftrightarrow> (\<forall>m\<in>M. m < length (heap s) \<longrightarrow> killed (heap s' ! m) = killed (heap s ! m))"

text \<open>
  A state with the marks of all its nodes cleared, to compare the states of a sweep.
\<close>

definition erase_marks :: "state \<Rightarrow> state" where
  "erase_marks s = s\<lparr>heap := map (\<lambda>r. r\<lparr>mark := False\<rparr>) (heap s)\<rparr>"

text \<open>
  The parents sets mirror the dependency lists: among the nodes that are not killed,
  \<open>b\<close> is in the parents of \<open>a\<close> exactly when \<open>a\<close> is in the dependencies of \<open>b\<close>.
\<close>

definition edges_mirrored :: "state \<Rightarrow> bool" where
  "edges_mirrored s \<longleftrightarrow>
     (\<forall>a<length (heap s). \<forall>b<length (heap s).
        \<not> killed (heap s ! a) \<and> \<not> killed (heap s ! b) \<longrightarrow>
        (b \<in> set (parents (heap s ! a)) \<longleftrightarrow> a \<in> set (depends_on_list (heap s ! b))))"

text \<open>
  \<open>collected s s' p\<close>: node \<open>p\<close> was killed between the two states. \<open>unlinks\<close>: a
  node whose \<^verbatim>\<open>killed\<close> flag is as before has lost from its parents set exactly the
  nodes killed in between that had it among their dependencies (the loop of lines 1168 and
  1169).
\<close>

definition collected :: "state \<Rightarrow> state \<Rightarrow> rid \<Rightarrow> bool" where
  "collected s s' p \<longleftrightarrow> p < length (heap s) \<and> \<not> killed (heap s ! p) \<and> killed (heap s' ! p)"

definition unlinks :: "state \<Rightarrow> state \<Rightarrow> bool" where
  "unlinks s s' \<longleftrightarrow>
     (\<forall>i<length (heap s). killed (heap s' ! i) = killed (heap s ! i) \<longrightarrow>
        set (parents (heap s' ! i))
          = {p \<in> set (parents (heap s ! i)).
               \<not> (collected s s' p \<and> i \<in> set (depends_on_list (heap s ! p)))})"

text \<open>
  The invariant of the worklist that keeps it free of duplicates: its nodes are marked.
\<close>

definition listed :: "rid list \<Rightarrow> state \<Rightarrow> bool" where
  "listed wl s \<longleftrightarrow> distinct wl \<and> (\<forall>m\<in>set wl. m < length (heap s) \<longrightarrow> mark (heap s ! m))"

subsection \<open>States built by the graph operations\<close>




text \<open>
  \<open>graph_step e s s'\<close>: between the two states the \<^verbatim>\<open>killed\<close> flags, the parents
  sets and the dependency lists are the same (\<open>e\<close> is \<open>None\<close>), or differ by the one
  edge \<open>e\<close>, added in both directions. \<open>graph_inv\<close> is the invariant of the graph.
\<close>

definition graph_step :: "(rid \<times> rid) option \<Rightarrow> state \<Rightarrow> state \<Rightarrow> bool" where
  "graph_step e s s' \<longleftrightarrow>
     length (heap s') = length (heap s)
     \<and> (\<forall>i<length (heap s).
           killed (heap s' ! i) = killed (heap s ! i)
           \<and> parents (heap s' ! i)
               = (case e of Some (self, src) \<Rightarrow>
                    if i = src then set_add self (parents (heap s ! i)) else parents (heap s ! i)
                  | None \<Rightarrow> parents (heap s ! i))
           \<and> depends_on_list (heap s' ! i)
               = (case e of Some (self, src) \<Rightarrow>
                    if i = self then depends_on_list (heap s ! i) @ [src]
                    else depends_on_list (heap s ! i)
                  | None \<Rightarrow> depends_on_list (heap s ! i)))"





subsection \<open>Concrete objects\<close>

text \<open>
  The module as it is after import (lines 45 to 72 and 151 to 168), and \<^verbatim>\<open>render_ready()\<close>.
\<close>

definition initial_state :: state where
  "initial_state =
     \<lparr>heap = [], render_cache = [], live_renders = [], screen_render = None, frame_time = 0,
      sizing = False, rendering = 0, render_st = 0, render_at = 0, render_width = 0,
      render_height = 0, render_is_ready = False, models = False, render_calls = []\<rparr>"

definition render_ready :: "state \<Rightarrow> state" where
  "render_ready s = s\<lparr>render_is_ready := True\<rparr>"

text \<open>
  A displayable whose \<^verbatim>\<open>render\<close> method is \<^verbatim>\<open>return renpy.Render(width, height)\<close>,
  and collaborators for it: a developer build, \<^verbatim>\<open>compute_raw\<close> taking an \<^verbatim>\<open>int\<close> as
  pixels and a \<^verbatim>\<open>float\<close> as a fraction of the room, and a \<^verbatim>\<open>subsurface\<close> that builds
  one node of the size of the rectangle, which depends on the node it is cut from
  (line 1091).
\<close>

definition leaf_render :: "real \<Rightarrow> real \<Rightarrow> real \<Rightarrow> real \<Rightarrow> state \<Rightarrow> pyobj outcome" where
  "leaf_render w h st at' s = (case new_render w h s of (n, s') \<Rightarrow> (Inr (Render n), s'))"

definition leaf :: "did \<Rightarrow> displayable" where
  "leaf i = \<lparr>ident = i, xmaximum = None, ymaximum = None, offer_size = None, clipping = False,
             style_debug = False, render_cb = leaf_render\<rparr>"

definition plain_env :: env where
  "plain_env =
     \<lparr>developer = True,
      compute_raw = (\<lambda>v room. case v of PyInt i \<Rightarrow> real_of_int i | PyFloat f \<Rightarrow> f * room),
      subsurface = (\<lambda>rv rect focus h.
         (Inr (length h),
          (h @ [(init_node (float32 (fst (snd (snd rect)))) (float32 (snd (snd (snd rect)))))
                  \<lparr>depends_on_list := [rv]\<rparr>])
            [rv := (h ! rv)\<lparr>parents := set_add (length h) (parents (h ! rv))\<rparr>]))\<rparr>"


text \<open>
  The same displayable with \<^verbatim>\<open>style.xmaximum = 100\<close>, and with a size override
  \<^verbatim>\<open>_offer_size = (50, 50)\<close> as well.
\<close>

definition capped :: displayable where
  "capped = (leaf 1)\<lparr>xmaximum := Some (PyInt 100)\<rparr>"

definition offered :: displayable where
  "offered = (leaf 1)\<lparr>xmaximum := Some (PyInt 100), offer_size := Some (50, 50)\<rparr>"

text \<open>
  States: the module ready to render; after one ordinary render of the leaf at 10 by 10;
  after one render of the capped displayable at 200 by 80; after one sizing render of
  the leaf; and a cache with keys at times 5 and 9 to rebase.
\<close>

definition ready_state :: state where
  "ready_state = render_ready initial_state"



definition probed_state :: state where
  "probed_state = snd (render_for_size plain_env (leaf 1) 10 10 0 0 ready_state)"

definition rebase_state :: state where
  "rebase_state = initial_state\<lparr>render_cache :=
      [(1, [((10, 10, 5, 5), 7), ((20, 20, 0, 5), 8)]),
       (2, [((10, 10, 0, 5), 7)]),
       (3, [((10, 10, 9, 0), 4), ((10, 10, 5, 0), 3)])]\<rparr>"


text \<open>
  Two cached nodes that depend on each other: a cycle of the parents relation.
\<close>

definition ring_state :: state where
  "ring_state = initial_state\<lparr>heap :=
      [(init_node 10 10)\<lparr>parents := [1], depends_on_list := [1], render_of := [1]\<rparr>,
       (init_node 10 10)\<lparr>parents := [0], depends_on_list := [0], render_of := [2]\<rparr>],
     live_renders := [0, 1],
     render_cache := [(1, [((10, 10, 0, 0), 0)]), (2, [((10, 10, 0, 0), 1)])]\<rparr>"




text \<open>
  A screen for the garbage collection: render 0 is the screen render and draws render 1;
  render 2 draws render 1 too, and render 3 draws a surface; neither is drawn by the
  screen.
\<close>

definition gc_plain :: gc_env where
  "gc_plain = \<lparr>im_cache_renders = [], emscripten = False, video_textures = []\<rparr>"

definition gc_state :: state where
  "gc_state =
     (let (a, s) = new_render 100 100 initial_state;
          (b, s) = new_render 50 50 s;
          (c, s) = new_render 50 50 s;
          (e, s) = new_render 10 10 s;
          s = snd (blit id a (Render b) (0, 0) False True None s);
          s = snd (blit id c (Render b) (0, 0) False True None s);
          s = snd (blit id e (Surface 7) (0, 0) False True None s)
      in s\<lparr>screen_render := Some a\<rparr>)"

text \<open>
  The same screen when the image cache holds the screen render too, after one collection:
  the screen render is twice in the new list of live renders.
\<close>

definition dup_env :: gc_env where
  "dup_env = \<lparr>im_cache_renders = [0], emscripten = False, video_textures = []\<rparr>"

definition dup_state :: state where
  "dup_state = mark_sweep dup_env gc_state"

text \<open>
  A video texture on emscripten: render 1 is spared by two collections, of which the first
  drops it from the list of live renders and the second leaves it marked. It then draws a
  new render 2, and the screen render 0 draws it.
\<close>

definition video_env :: gc_env where
  "video_env = \<lparr>im_cache_renders = [], emscripten = True, video_textures = [Render 1]\<rparr>"

definition stale_state :: state where
  "stale_state =
     (let (a, s) = new_render 100 100 initial_state;
          (v, s) = new_render 50 50 s;
          s = s\<lparr>screen_render := Some a\<rparr>;
          s = mark_sweep video_env s;
          s = mark_sweep video_env s;
          (w, s) = new_render 50 50 s;
          s = snd (blit id v (Render w) (0, 0) True True None s);
          s = snd (blit id a (Render v) (0, 0) True True None s)
      in s)"

section \<open>Properties\<close>

subsection \<open>Single precision\<close>

lemma rne_of_int [simp]: "rne (of_int n) = n"
  by (simp add: rne_def)






lemma expo_spec:
  "k - int n \<le> expo n k x \<and> expo n k x \<le> k
   \<and> (k - int n < expo n k x \<longrightarrow> 2 powi (expo n k x) \<le> \<bar>x\<bar>)
   \<and> (\<forall>j. expo n k x < j \<and> j \<le> k \<longrightarrow> \<not> 2 powi j \<le> \<bar>x\<bar>)"
proof (induction n arbitrary: k)
  case 0
  show ?case by simp
next
  case (Suc n)
  show ?case
  proof (cases "2 powi k \<le> \<bar>x\<bar>")
    case True
    then show ?thesis by simp
  next
    case False
    note ih = Suc [of "k - 1"]
    have e: "expo (Suc n) k x = expo n (k - 1) x" using False by simp
    have "\<not> 2 powi j \<le> \<bar>x\<bar>" if "expo n (k - 1) x < j \<and> j \<le> k" for j
    proof (cases "j = k")
      case True
      with False show ?thesis by simp
    next
      case F: False
      with that have "expo n (k - 1) x < j \<and> j \<le> k - 1" by simp
      with ih show ?thesis by blast
    qed
    with ih show ?thesis unfolding e by auto
  qed
qed

lemma pow2_mono: "a \<le> b \<Longrightarrow> (2::real) powi a \<le> 2 powi b"
  by (rule power_int_increasing) simp_all

lemma pow2_pos [simp]: "0 < (2::real) powi a"
  by (simp add: zero_less_power_int)

lemma expo_eq:
  assumes "- 126 \<le> e" and "e \<le> 127"
    and "- 126 < e \<Longrightarrow> 2 powi e \<le> \<bar>y\<bar>"
    and "e < 127 \<Longrightarrow> \<bar>y\<bar> < 2 powi (e + 1)"
  shows "expo 253 127 y = e"
proof -
  let ?r = "expo 253 127 y"
  note s = expo_spec [of 127 253 y]
  have "\<not> ?r < e"
  proof
    assume l: "?r < e"
    with s have "- 126 < e" by simp
    then have "2 powi e \<le> \<bar>y\<bar>" by (rule assms(3))
    moreover from s l assms(2) have "\<not> 2 powi e \<le> \<bar>y\<bar>" by blast
    ultimately show False by simp
  qed
  moreover have "\<not> e < ?r"
  proof
    assume l: "e < ?r"
    with s have "e < 127" by simp
    then have "\<bar>y\<bar> < 2 powi (e + 1)" by (rule assms(4))
    moreover from l assms(1) s have "2 powi ?r \<le> \<bar>y\<bar>" by simp
    moreover from l have "(2::real) powi (e + 1) \<le> 2 powi ?r" by (intro pow2_mono) simp
    ultimately show False by simp
  qed
  ultimately show ?thesis by simp
qed




lemma pow2_split: "(2::real) powi e = 8388608 * 2 powi (e - 23)"
proof -
  have "(2::real) powi (23 + (e - 23)) = 2 powi 23 * 2 powi (e - 23)"
    by (rule power_int_add) simp
  then show ?thesis by simp
qed

lemma pow2_split1: "(2::real) powi (e + 1) = 16777216 * 2 powi (e - 23)"
proof -
  have "(2::real) powi (24 + (e - 23)) = 2 powi 24 * 2 powi (e - 23)"
    by (rule power_int_add) simp
  moreover have "24 + (e - 23) = e + 1" by simp
  ultimately show ?thesis by simp
qed


lemma rne_0 [simp]: "rne 0 = 0"
  by (simp add: rne_def)

lemma float32_at:
  assumes "expo 253 127 y = e" and "y = of_int k * 2 powi (e - 23)"
  shows "float32 y = y"
  by (simp add: float32_def Let_def assms(1)) (simp add: assms(2))

lemma float32_grid:
  assumes "- 126 \<le> e" and "e \<le> 127"
    and "- 126 < e \<Longrightarrow> 8388608 \<le> \<bar>k\<bar>" and "e < 127 \<Longrightarrow> \<bar>k\<bar> < 16777216"
  shows "float32 (of_int k * 2 powi (e - 23)) = of_int k * 2 powi (e - 23)"
proof (rule float32_at [where e = e and k = k])
  let ?y = "of_int k * (2::real) powi (e - 23)"
  have a: "\<bar>?y\<bar> = \<bar>of_int k\<bar> * 2 powi (e - 23)" by (simp add: abs_mult)
  show "expo 253 127 ?y = e"
    using assms(1,2)
  proof (rule expo_eq)
    assume "- 126 < e"
    then have "8388608 \<le> \<bar>k\<bar>" by (rule assms(3))
    then have "(8388608::real) \<le> \<bar>of_int k\<bar>" by linarith
    then have "8388608 * 2 powi (e - 23) \<le> \<bar>of_int k\<bar> * (2::real) powi (e - 23)"
      by (intro mult_right_mono) simp_all
    then show "2 powi e \<le> \<bar>?y\<bar>" by (simp only: a pow2_split [symmetric])
  next
    assume "e < 127"
    then have "\<bar>k\<bar> < 16777216" by (rule assms(4))
    then have "\<bar>of_int k\<bar> < (16777216::real)" by linarith
    then have "\<bar>of_int k\<bar> * 2 powi (e - 23) < 16777216 * (2::real) powi (e - 23)"
      by (intro mult_strict_right_mono) simp_all
    then show "\<bar>?y\<bar> < 2 powi (e + 1)" by (simp only: a pow2_split1 [symmetric])
  qed
qed simp


lemma float32_0 [simp]: "float32 0 = 0"
  by (simp add: float32_def Let_def)

lemma float32_dyadic:
  assumes "x = of_int k * 2 powi (e - 23)" and "- 126 \<le> e" and "e \<le> 127"
    and "8388608 \<le> \<bar>k\<bar>" and "\<bar>k\<bar> < 16777216"
  shows "float32 x = x"
  unfolding assms(1) using assms(2,3) by (rule float32_grid) (simp_all add: assms(4,5))

lemma float32_values [simp]:
  "float32 10 = 10" "float32 50 = 50" "float32 80 = 80" "float32 100 = 100"
  "float32 200 = 200" "float32 1 = 1"
proof -
  show "float32 10 = 10" by (rule float32_dyadic [where k = 10485760 and e = 3]) simp_all
  show "float32 50 = 50" by (rule float32_dyadic [where k = 13107200 and e = 5]) simp_all
  show "float32 80 = 80" by (rule float32_dyadic [where k = 10485760 and e = 6]) simp_all
  show "float32 100 = 100" by (rule float32_dyadic [where k = 13107200 and e = 6]) simp_all
  show "float32 200 = 200" by (rule float32_dyadic [where k = 13107200 and e = 7]) simp_all
  show "float32 1 = 1" by (rule float32_dyadic [where k = 8388608 and e = 0]) simp_all
qed



subsection \<open>Spans\<close>

lemma disjoint_iff_le: "({a..<b} \<inter> {c..<d} = ({}::int set)) = (min b d \<le> max a c)"
proof
  assume e: "{a..<b} \<inter> {c..<d} = ({}::int set)"
  show "min b d \<le> max a c"
  proof (rule ccontr)
    assume "\<not> min b d \<le> max a c"
    then have "max a c \<in> {a..<b} \<inter> {c..<d}" by auto
    with e show False by blast
  qed
next
  assume "min b d \<le> max a c"
  then show "{a..<b} \<inter> {c..<d} = ({}::int set)" by auto
qed

subsection \<open>The cache and render\<close>

lemma cache_get_touch [simp]: "cache_get (cache_touch d s) d' k = cache_get s d' k"
proof (cases "d \<in> fst ` set (render_cache s)")
  case True
  then show ?thesis by (simp add: cache_touch_def)
next
  case False
  then have "map_of (render_cache s) d = None" by (simp add: map_of_eq_None_iff)
  then show ?thesis
    by (simp add: cache_touch_def cache_get_def map_add_def split: option.splits)
qed




lemma cache_get_upd_node [simp]: "cache_get (upd_node n f s) d k = cache_get s d k"
  by (simp add: cache_get_def upd_node_def)

lemma cache_get_set_heap [simp]: "cache_get (set_heap h s) d k = cache_get s d k"
  by (simp add: cache_get_def set_heap_def)

lemma cache_get_cong_fields:
  "render_cache s' = render_cache s \<Longrightarrow> cache_get s' d k = cache_get s d k"
  by (simp add: cache_get_def)


lemma set_heap_fields [simp]:
  "render_cache (set_heap h s) = render_cache s"
  "frame_time (set_heap h s) = frame_time s"
  "sizing (set_heap h s) = sizing s"
  "render_is_ready (set_heap h s) = render_is_ready s"
  "render_calls (set_heap h s) = render_calls s"
  "heap (set_heap h s) = h"
  by (simp_all add: set_heap_def)

lemma cache_put_fields [simp]:
  "heap (cache_put d k v s) = heap s"
  "frame_time (cache_put d k v s) = frame_time s"
  "sizing (cache_put d k v s) = sizing s"
  "render_is_ready (cache_put d k v s) = render_is_ready s"
  "render_calls (cache_put d k v s) = render_calls s"
  by (simp_all add: cache_put_def)

lemma cache_touch_fields [simp]:
  "heap (cache_touch d s) = heap s"
  "frame_time (cache_touch d s) = frame_time s"
  "sizing (cache_touch d s) = sizing s"
  "render_is_ready (cache_touch d s) = render_is_ready s"
  "render_calls (cache_touch d s) = render_calls s"
  by (simp_all add: cache_touch_def)



lemma leave_call_fields [simp]:
  "sizing (leave_call s s2) = sizing s2"
  "frame_time (leave_call s s2) = frame_time s2"
  "render_is_ready (leave_call s s2) = render_is_ready s2"
  "render_calls (leave_call s s2) = render_calls s2"
  "render_cache (leave_call s s2) = render_cache s2"
  "heap (leave_call s s2) = heap s2"
  by (simp_all add: leave_call_def)

lemma cache_get_leave_call [simp]: "cache_get (leave_call s s2) d k = cache_get s2 d k"
  by (simp add: cache_get_def)

lemma enter_call_fields [simp]:
  "sizing (enter_call d wh st at' s) = sizing s"
  "frame_time (enter_call d wh st at' s) = frame_time s"
  "render_is_ready (enter_call d wh st at' s) = render_is_ready s"
  "render_cache (enter_call d wh st at' s) = render_cache s"
  "heap (enter_call d wh st at' s) = heap s"
  by (simp_all add: enter_call_def)

lemma cache_get_enter_call [simp]: "cache_get (enter_call d wh st at' s) d' k = cache_get s d' k"
  by (simp add: cache_get_def)




lemma cache_within_refl [simp]: "cache_within s s"
  by (simp add: cache_within_def)



lemma cache_within_get: "\<forall>d k. cache_get s' d k = cache_get s d k \<Longrightarrow> cache_within s s'"
  by (simp add: cache_within_def)





lemma clamped_key_same:
  "clamp_size env d w h = (w, h) \<Longrightarrow>
     clamped_key env d w h st at' s = (w, h, frame_time s - st, frame_time s - at')"
  by (simp add: clamped_key_def)


lemma begin_render_fields [simp]:
  "sizing (begin_render d w h s) = sizing s"
  "frame_time (begin_render d w h s) = frame_time s"
  "render_is_ready (begin_render d w h s) = render_is_ready s"
  "render_calls (begin_render d w h s) = render_calls s"
  "heap (begin_render d w h s) = heap s"
  by (simp_all add: begin_render_def)

lemma cache_get_begin_render [simp]: "cache_get (begin_render d w h s) d' k = cache_get s d' k"
  by (simp add: begin_render_def) (simp add: cache_get_def)

lemma clamped_key_begin_render [simp]:
  "clamped_key env d w h st at' (begin_render d w' h' s) = clamped_key env d w h st at' s"
  by (simp add: clamped_key_def)

lemma calls_of_begin_render [simp]: "calls_of d' (begin_render d w h s) = calls_of d' s"
  by (simp add: calls_of_def)








lemma cache_hit_cong:
  assumes "\<forall>d' k. cache_get s' d' k = cache_get s d' k" and "frame_time s' = frame_time s"
  shows "cache_hit env d w h st at' s' = cache_hit env d w h st at' s"
  using assms by (simp add: cache_hit_def clamped_key_def)


lemma probe_base_fields [simp]:
  "sizing (probe_base d w h s)"
  "frame_time (probe_base d w h s) = frame_time s"
  "render_is_ready (probe_base d w h s) = render_is_ready s"
  "render_calls (probe_base d w h s) = render_calls s"
  "heap (probe_base d w h s) = heap s"
  "cache_get (probe_base d w h s) d' k = cache_get s d' k"
proof -
  show "cache_get (probe_base d w h s) d' k = cache_get s d' k"
  proof -
    have "cache_get (probe_base d w h s) d' k
            = cache_get ((cache_touch (ident d) s)\<lparr>sizing := True\<rparr>) d' k"
      by (simp add: probe_base_def)
    also have "\<dots> = cache_get (cache_touch (ident d) s) d' k" by (simp add: cache_get_def)
    finally show ?thesis by simp
  qed
qed (simp_all add: probe_base_def)



lemma clamped_key_probe_base [simp]:
  "clamped_key env d w h st at' (probe_base d w' h' s) = clamped_key env d w h st at' s"
  by (simp add: clamped_key_def)

subsection \<open>Rebuilding a dictionary\<close>

lemma map_of_fold_update:
  "map_of (fold (\<lambda>(k, v) acc. AList.update (f k) v acc) xs acc) k'
     = (case map_of (rev (map (\<lambda>(k, v). (f k, v)) xs)) k' of
          None \<Rightarrow> map_of acc k' | Some v \<Rightarrow> Some v)"
proof (induction xs arbitrary: acc)
  case Nil
  then show ?case by simp
next
  case (Cons x xs)
  obtain k v where x: "x = (k, v)" by (cases x)
  show ?case
    by (simp add: x Cons.IH update_conv' map_add_def split: option.splits)
qed

lemma map_of_rebase_renders:
  "map_of (rebase_renders old new renders) k'
     = map_of (rev (map (\<lambda>(k, v). (rebase_key old new k, v)) renders)) k'"
  by (simp add: rebase_renders_def map_of_fold_update split: option.splits)

lemma map_of_rev_inj:
  assumes "distinct (map fst xs)" and "inj_on f (fst ` set xs)" and "(k, v) \<in> set xs"
  shows "map_of (rev (map (\<lambda>(k, v). (f k, v)) xs)) (f k) = Some v"
proof -
  have d: "distinct (map fst (rev (map (\<lambda>(k, v). (f k, v)) xs)))"
    using assms(1,2) by (simp add: rev_map [symmetric] distinct_map comp_def case_prod_unfold inj_on_def)
  have "(f k, v) \<in> set (rev (map (\<lambda>(k, v). (f k, v)) xs))"
    using assms(3) by force
  with d show ?thesis by (rule map_of_is_SomeI)
qed

lemma map_of_map_if:
  "map_of (map (\<lambda>(d, r). if c r then (d, g r) else (d, r)) xs) d
     = map_option (\<lambda>r. if c r then g r else r) (map_of xs d)"
  by (induction xs) auto

lemma map_of_adjust:
  "map_of (render_cache (adjust_render_cache_times old new s)) d
     = map_option (\<lambda>renders. if has_st_base old renders then rebase_renders old new renders else renders)
         (map_of (render_cache s) d)"
  by (simp add: adjust_render_cache_times_def map_of_map_if)

lemma has_st_base_iff:
  "has_st_base old renders = (\<exists>k\<in>fst ` set renders. fst (snd (snd k)) = old)"
  by (force simp: has_st_base_def list_ex_iff)

subsection \<open>The concrete objects evaluated\<close>

lemmas render_defs = render_def render_miss_def render_call_def render_store_def render_finish_def
  clamp_size_def float_size_def enter_call_def leave_call_def cache_touch_def cache_get_def cache_put_def
  upd_node_def set_heap_def new_render_def init_node_def leaf_render_def leaf_def plain_env_def
  initial_state_def render_ready_def calls_of_def ready_state_def capped_def offered_def
  render_for_size_def







lemma probed_state_eq:
  "probed_state =
    \<lparr>heap = [(init_node 10 10)\<lparr>render_of := [1]\<rparr>],
     render_cache = [(1, [])], live_renders = [0],
     screen_render = None, frame_time = 0, sizing = False, rendering = 0,
     render_st = 0, render_at = 0, render_width = 10, render_height = 10,
     render_is_ready = True, models = False,
     render_calls = [(1, 10, 10, 0, 0)]\<rparr>"
  by (simp add: probed_state_def render_defs Let_def)

lemma probe: "render_for_size plain_env (leaf 1) 10 10 0 0 ready_state = (Inr 0, probed_state)"
  unfolding probed_state_eq by (simp add: render_defs Let_def)




lemma blit_keeps [simp]:
  "sizing (snd (blit lt self source pos focus main index s)) = sizing s"
  "render_cache (snd (blit lt self source pos focus main index s)) = render_cache s"
  "render_calls (snd (blit lt self source pos focus main index s)) = render_calls s"
  by (cases source; cases pos; simp add: blit_def blit_common_def Let_def upd_node_def)+

lemma new_render_keeps [simp]:
  "sizing (snd (new_render w h s)) = sizing s"
  "render_cache (snd (new_render w h s)) = render_cache s"
  "render_calls (snd (new_render w h s)) = render_calls s"
  by (simp_all add: new_render_def)








lemmas graph_defs = kill.simps kill_cache.simps kill_finish_def break_references_def
  discard_from_dependencies_def uncache_def cache_remove_def upd_node_def set_discard_def
  init_node_def initial_state_def

subsection \<open>kill\_cache\<close>

lemma cache_get_entries: "cache_get s d k = Some v \<Longrightarrow> (d, k, v) \<in> cache_entries s"
  by (auto simp: cache_get_def cache_entries_def split: option.splits dest!: map_of_SomeD)

lemma cache_entries_remove:
  "cache_entries (cache_remove self d s) = cache_entries s - {(d', k, v). d' = d \<and> v = self}"
  by (auto simp: cache_entries_def cache_remove_def Let_def update_conv' delete_conv'
           filter_empty_conv split: option.splits if_splits)

lemma cache_entries_fold_remove:
  "cache_entries (fold (cache_remove self) ds s)
     = cache_entries s - {(d', k, v). d' \<in> set ds \<and> v = self}"
  by (induction ds arbitrary: s) (auto simp: cache_entries_remove)

lemma cache_entries_uncache:
  "cache_entries (uncache self s)
     = cache_entries s - {(d, k, v). d \<in> set (render_of (heap s ! self)) \<and> v = self}"
  by (simp add: uncache_def cache_entries_fold_remove)

lemma cache_entries_heap [simp]: "cache_entries (upd_node n f s) = cache_entries s"
  by (simp add: cache_entries_def)

lemma kc_step_refl: "kc_step s s"
  by (simp add: kc_step_def)

lemma kc_step_trans:
  assumes "kc_step s s1" and "kc_step s1 s2"
  shows "kc_step s s2"
  unfolding kc_step_def
proof (intro conjI allI impI)
  from assms show "length (heap s2) = length (heap s)" by (simp add: kc_step_def)
next
  fix i assume i: "i < length (heap s)"
  with assms have a: "heap s1 ! i = (heap s ! i)\<lparr>cache_killed := cache_killed (heap s1 ! i)\<rparr>"
    and b: "heap s2 ! i = (heap s1 ! i)\<lparr>cache_killed := cache_killed (heap s2 ! i)\<rparr>"
    by (simp_all add: kc_step_def)
  show "heap s2 ! i = (heap s ! i)\<lparr>cache_killed := cache_killed (heap s2 ! i)\<rparr>"
    by (subst b, subst a) simp
  assume "cache_killed (heap s ! i)"
  with assms i show "cache_killed (heap s2 ! i)" by (simp add: kc_step_def)
next
  from assms show "cache_entries s2 \<subseteq> cache_entries s" by (auto simp: kc_step_def)
qed

lemma kc_step_flag: "kc_step s (upd_node n (\<lambda>r. r\<lparr>cache_killed := True\<rparr>) s)"
  by (simp add: kc_step_def nth_upd_node)

lemma kc_step_uncache: "kc_step s (uncache n s)"
  by (auto simp: kc_step_def cache_entries_uncache)

lemma kill_cache_step:
  "kc_step s (kill_cache n s)"
  "kc_step s (kill_cache_all l s)"
proof (induction n s and l s rule: kill_cache_kill_cache_all.induct)
  case (1 self s)
  show ?case
  proof (cases "self < length (heap s) \<and> \<not> cache_killed (heap s ! self)")
    case True
    let ?s1 = "upd_node self (\<lambda>r. r\<lparr>cache_killed := True\<rparr>) s"
    let ?s2 = "kill_cache_all (parents (heap s ! self)) ?s1"
    from 1 True have "kc_step ?s1 ?s2" by simp
    with kc_step_flag [of s self] have "kc_step s ?s2" by (rule kc_step_trans)
    then have "kc_step s (uncache self ?s2)" using kc_step_uncache by (rule kc_step_trans)
    with True show ?thesis by (simp add: kill_cache.simps)
  next
    case False
    then have "kill_cache self s = s" by (auto simp: kill_cache.simps)
    then show ?thesis by (simp add: kc_step_refl)
  qed
next
  case (2 s)
  show ?case by (simp add: kc_step_refl)
next
  case (3 i rest s)
  from 3 have "kc_step s (kill_cache_all rest (kill_cache i s))" by (rule kc_step_trans)
  then show ?case by simp
qed

lemma kill_cache_flagged:
  assumes "n < length (heap s)"
  shows "cache_killed (heap (kill_cache n s) ! n)"
proof (cases "cache_killed (heap s ! n)")
  case True
  then show ?thesis by (simp add: kill_cache.simps)
next
  case False
  let ?s1 = "upd_node n (\<lambda>r. r\<lparr>cache_killed := True\<rparr>) s"
  have "cache_killed (heap ?s1 ! n)" using assms by (simp add: nth_upd_node)
  moreover have "kc_step ?s1 (kill_cache_all (parents (heap s ! n)) ?s1)" by (rule kill_cache_step)
  ultimately have "cache_killed (heap (kill_cache_all (parents (heap s ! n)) ?s1) ! n)"
    using assms by (simp add: kc_step_def)
  with False assms show ?thesis by (simp add: kill_cache.simps)
qed

lemma kill_cache_all_flagged:
  "i \<in> set l \<Longrightarrow> i < length (heap s) \<Longrightarrow> cache_killed (heap (kill_cache_all l s) ! i)"
proof (induction l arbitrary: s)
  case Nil
  then show ?case by simp
next
  case (Cons j l)
  have st: "kc_step s (kill_cache j s)" by (rule kill_cache_step)
  then have len: "length (heap (kill_cache j s)) = length (heap s)" by (simp add: kc_step_def)
  show ?case
  proof (cases "i \<in> set l")
    case True
    with Cons.IH [of "kill_cache j s"] Cons.prems(2) len show ?thesis by simp
  next
    case False
    with Cons.prems have "i = j" by simp
    with Cons.prems(2) have "cache_killed (heap (kill_cache j s) ! i)" by (simp add: kill_cache_flagged)
    moreover have "kc_step (kill_cache j s) (kill_cache_all l (kill_cache j s))" by (rule kill_cache_step)
    ultimately show ?thesis using Cons.prems(2) len by (simp add: kc_step_def)
  qed
qed

lemma kc_step_render_of:
  assumes "kc_step s s'" and "m < length (heap s)"
  shows "render_of (heap s' ! m) = render_of (heap s ! m)"
proof -
  from assms have "heap s' ! m = (heap s ! m)\<lparr>cache_killed := cache_killed (heap s' ! m)\<rparr>"
    by (simp add: kc_step_def)
  then have "render_of (heap s' ! m)
               = render_of ((heap s ! m)\<lparr>cache_killed := cache_killed (heap s' ! m)\<rparr>)"
    by (rule arg_cong)
  then show ?thesis by simp
qed

lemma swept_trans:
  assumes "kc_step s s1" and "kc_step s1 s2" and "swept s s1" and "swept s1 s2"
  shows "swept s s2"
  unfolding swept_def
proof (intro allI impI ballI)
  fix m d k
  assume m: "m < length (heap s)"
    and f: "\<not> cache_killed (heap s ! m) \<and> cache_killed (heap s2 ! m)"
    and d: "d \<in> set (render_of (heap s ! m))"
  from assms(1) have len: "length (heap s1) = length (heap s)" by (simp add: kc_step_def)
  show "(d, k, m) \<notin> cache_entries s2"
  proof (cases "cache_killed (heap s1 ! m)")
    case True
    with assms(3) m f d have "(d, k, m) \<notin> cache_entries s1" unfolding swept_def by blast
    with assms(2) show ?thesis unfolding kc_step_def by blast
  next
    case False
    from kc_step_render_of [OF assms(1) m] d have "d \<in> set (render_of (heap s1 ! m))" by simp
    moreover from m len have "m < length (heap s1)" by simp
    ultimately show ?thesis using assms(4) f False unfolding swept_def by blast
  qed
qed

lemma kill_cache_swept:
  "swept s (kill_cache n s)"
  "swept s (kill_cache_all l s)"
proof (induction n s and l s rule: kill_cache_kill_cache_all.induct)
  case (1 self s)
  show ?case
  proof (cases "self < length (heap s) \<and> \<not> cache_killed (heap s ! self)")
    case False
    then have "kill_cache self s = s" by (auto simp: kill_cache.simps)
    then show ?thesis by (simp add: swept_def)
  next
    case True
    let ?s1 = "upd_node self (\<lambda>r. r\<lparr>cache_killed := True\<rparr>) s"
    let ?s2 = "kill_cache_all (parents (heap s ! self)) ?s1"
    from 1 True have sw: "swept ?s1 ?s2" by simp
    have st: "kc_step ?s1 ?s2" by (rule kill_cache_step)
    have st0: "kc_step s ?s2" using kc_step_flag st by (rule kc_step_trans)
    have eq: "kill_cache self s = uncache self ?s2" using True by (simp add: kill_cache.simps)
    show ?thesis
      unfolding swept_def eq
    proof (intro allI impI ballI)
      fix m d k
      assume m: "m < length (heap s)"
        and f: "\<not> cache_killed (heap s ! m) \<and> cache_killed (heap (uncache self ?s2) ! m)"
        and d: "d \<in> set (render_of (heap s ! m))"
      have ro: "render_of (heap ?s2 ! m) = render_of (heap s ! m)"
        using st0 m by (rule kc_step_render_of)
      show "(d, k, m) \<notin> cache_entries (uncache self ?s2)"
      proof (cases "m = self")
        case True
        with d ro show ?thesis by (simp add: cache_entries_uncache)
      next
        case False
        with f have "\<not> cache_killed (heap ?s1 ! m)" by (simp add: nth_upd_node)
        moreover from f have "cache_killed (heap ?s2 ! m)" by simp
        moreover have "d \<in> set (render_of (heap ?s1 ! m))" using d False by (simp add: nth_upd_node)
        moreover have "m < length (heap ?s1)" using m by simp
        ultimately have "(d, k, m) \<notin> cache_entries ?s2"
          using sw unfolding swept_def by blast
        then show ?thesis by (simp add: cache_entries_uncache)
      qed
    qed
  qed
next
  case (2 s)
  show ?case by (simp add: swept_def)
next
  case (3 i rest s)
  have "swept s (kill_cache_all rest (kill_cache i s))"
    using kill_cache_step(1) kill_cache_step(2) 3 by (rule swept_trans)
  then show ?case by simp
qed

subsection \<open>kill\<close>

lemma dead_simps [simp]:
  "dead (r\<lparr>parents := p\<rparr>) = dead r"
  "(dead r)\<lparr>parents := []\<rparr> = dead r"
  "parents (dead r) = []"
  "killed (dead r)"
  "depends_on_list (dead r) = []"
  "mark (dead r) = mark r"
  by (simp_all add: dead_def cleared_def)

lemma nth_fold_upd_idem:
  assumes "\<And>r. f (f r) = f r"
  shows "heap (fold (\<lambda>i. upd_node i f) l s) ! j
           = (if j \<in> set l \<and> j < length (heap s) then f (heap s ! j) else heap s ! j)"
proof (induction l arbitrary: s)
  case Nil
  show ?case by simp
next
  case (Cons i l)
  have "heap (fold (\<lambda>i. upd_node i f) (i # l) s) ! j
          = heap (fold (\<lambda>i. upd_node i f) l (upd_node i f s)) ! j" by simp
  also have "\<dots> = (if j \<in> set l \<and> j < length (heap s)
                    then f (heap (upd_node i f s) ! j) else heap (upd_node i f s) ! j)"
    by (simp add: Cons.IH)
  also have "\<dots> = (if j \<in> set (i # l) \<and> j < length (heap s) then f (heap s ! j) else heap s ! j)"
    by (cases "j = i") (simp_all add: nth_upd_node assms)
  finally show ?case .
qed

lemma nth_discard_from_dependencies:
  "heap (discard_from_dependencies n s) ! j
     = (if j \<in> set (depends_on_list (heap s ! n)) \<and> j < length (heap s)
        then (heap s ! j)\<lparr>parents := removeAll n (parents (heap s ! j))\<rparr>
        else heap s ! j)"
  unfolding discard_from_dependencies_def set_discard_def
  by (rule nth_fold_upd_idem) simp

lemma cache_fold_discard [simp]:
  "render_cache (fold (\<lambda>i. upd_node i (f i)) l s) = render_cache s"
  by (induction l arbitrary: s) simp_all

lemma discard_from_dependencies_fields [simp]:
  "length (heap (discard_from_dependencies n s)) = length (heap s)"
  "render_cache (discard_from_dependencies n s) = render_cache s"
  by (simp_all add: discard_from_dependencies_def)

lemma nth_break_references:
  "heap (break_references n s) ! j
     = (if j = n \<and> n < length (heap s) \<and> depends_on_list (heap s ! n) \<noteq> []
        then (heap s ! n)\<lparr>depends_on_list := [], render_of := [], children := []\<rparr>
        else heap s ! j)"
  by (simp add: break_references_def nth_upd_node)

lemma break_references_fields [simp]:
  "length (heap (break_references n s)) = length (heap s)"
  "render_cache (break_references n s) = render_cache s"
  by (simp_all add: break_references_def)

lemma kill_finish_self:
  assumes "n < length (heap s)"
  shows "heap (kill_finish n s) ! n = cleared (heap s ! n)"
  using assms
  by (simp add: kill_finish_def nth_upd_node nth_break_references
        nth_discard_from_dependencies cleared_def)

lemma kill_finish_other:
  assumes "j \<noteq> n" and "n < length (heap s)"
  shows "heap (kill_finish n s) ! j
           = (if j \<in> set (depends_on_list (heap s ! n)) \<and> j < length (heap s)
              then (heap s ! j)\<lparr>parents := removeAll n (parents (heap s ! j))\<rparr>
              else heap s ! j)"
  using assms
  by (simp add: kill_finish_def nth_upd_node nth_break_references
        nth_discard_from_dependencies)

lemma cache_entries_cong: "render_cache s' = render_cache s \<Longrightarrow> cache_entries s' = cache_entries s"
  by (simp add: cache_entries_def)

lemma kill_finish_entries: "cache_entries (kill_finish n s) \<subseteq> cache_entries s"
proof -
  have "cache_entries (kill_finish n s)
          = cache_entries (uncache n (discard_from_dependencies n (upd_node n (\<lambda>r. r\<lparr>parents := []\<rparr>) s)))"
    by (rule cache_entries_cong) (simp add: kill_finish_def)
  also have "\<dots> \<subseteq> cache_entries (discard_from_dependencies n (upd_node n (\<lambda>r. r\<lparr>parents := []\<rparr>) s))"
    by (auto simp: cache_entries_uncache)
  also have "\<dots> = cache_entries s"
    by (rule cache_entries_cong) simp
  finally show ?thesis .
qed

lemma kl_node_refl: "kl_node s s i"
  by (simp add: kl_node_def)

lemma kl_step_refl: "kl_step s s"
  by (simp add: kl_step_def kl_node_refl)

lemma kl_node_mono: "kl_node s s' i \<Longrightarrow> killed (heap s ! i) \<Longrightarrow> killed (heap s' ! i)"
  by (auto simp: kl_node_def split: if_splits)

lemma kl_step_mono:
  "kl_step s s' \<Longrightarrow> i < length (heap s) \<Longrightarrow> killed (heap s ! i) \<Longrightarrow> killed (heap s' ! i)"
  by (auto simp: kl_step_def intro: kl_node_mono)

lemma kl_node_trans:
  assumes a: "kl_node s s1 i" and b: "kl_node s1 s2 i"
    and len: "length (heap s1) = length (heap s)"
    and mono: "\<forall>b<length (heap s). killed (heap s1 ! b) \<longrightarrow> killed (heap s2 ! b)"
  shows "kl_node s s2 i"
proof (cases "killed (heap s1 ! i) = killed (heap s ! i)")
  case k1: True
  with a have a1: "heap s1 ! i = (heap s ! i)\<lparr>parents := parents (heap s1 ! i)\<rparr>"
    and a2: "set (parents (heap s1 ! i)) \<subseteq> set (parents (heap s ! i))"
    and a3: "\<forall>b\<in>set (parents (heap s ! i)) - set (parents (heap s1 ! i)).
                 b < length (heap s) \<and> killed (heap s1 ! b)"
    by (simp_all add: kl_node_def)
  show ?thesis
  proof (cases "killed (heap s2 ! i) = killed (heap s1 ! i)")
    case k2: True
    with b have b1: "heap s2 ! i = (heap s1 ! i)\<lparr>parents := parents (heap s2 ! i)\<rparr>"
      and b2: "set (parents (heap s2 ! i)) \<subseteq> set (parents (heap s1 ! i))"
      and b3: "\<forall>b\<in>set (parents (heap s1 ! i)) - set (parents (heap s2 ! i)).
                 b < length (heap s1) \<and> killed (heap s2 ! b)"
      by (simp_all add: kl_node_def)
    have c1: "heap s2 ! i = (heap s ! i)\<lparr>parents := parents (heap s2 ! i)\<rparr>"
      by (subst b1, subst a1) simp
    have c3: "\<forall>b\<in>set (parents (heap s ! i)) - set (parents (heap s2 ! i)).
                 b < length (heap s) \<and> killed (heap s2 ! b)"
    proof
      fix x assume x: "x \<in> set (parents (heap s ! i)) - set (parents (heap s2 ! i))"
      show "x < length (heap s) \<and> killed (heap s2 ! x)"
      proof (cases "x \<in> set (parents (heap s1 ! i))")
        case True
        with x b3 len show ?thesis by auto
      next
        case False
        with x a3 have "x < length (heap s) \<and> killed (heap s1 ! x)" by auto
        with mono show ?thesis by auto
      qed
    qed
    from k1 k2 c1 a2 b2 c3 show ?thesis by (simp add: kl_node_def)
  next
    case k2: False
    with b have b1: "killed (heap s2 ! i)" and b2: "heap s2 ! i = dead (heap s1 ! i)"
      by (simp_all add: kl_node_def)
    have "heap s2 ! i = dead (heap s ! i)" by (subst b2, subst a1) simp
    with k1 k2 b1 show ?thesis by (simp add: kl_node_def)
  qed
next
  case k1: False
  with a have a1: "killed (heap s1 ! i)" and a2: "heap s1 ! i = dead (heap s ! i)"
    by (simp_all add: kl_node_def)
  from a1 b have k2: "killed (heap s2 ! i)" by (rule kl_node_mono [rotated])
  with a1 b have b1: "heap s2 ! i = (heap s1 ! i)\<lparr>parents := parents (heap s2 ! i)\<rparr>"
    and b2: "set (parents (heap s2 ! i)) \<subseteq> set (parents (heap s1 ! i))"
    by (simp_all add: kl_node_def)
  from b2 a2 have "parents (heap s2 ! i) = []" by simp
  with b1 a2 have "heap s2 ! i = dead (heap s ! i)" by simp
  with k1 a1 k2 show ?thesis by (simp add: kl_node_def)
qed

lemma kl_step_trans:
  assumes "kl_step s s1" and "kl_step s1 s2"
  shows "kl_step s s2"
  unfolding kl_step_def
proof (intro conjI allI impI)
  from assms show "length (heap s2) = length (heap s)" by (simp add: kl_step_def)
next
  fix i assume i: "i < length (heap s)"
  from assms(1) have len: "length (heap s1) = length (heap s)" by (simp add: kl_step_def)
  have mono: "\<forall>b<length (heap s). killed (heap s1 ! b) \<longrightarrow> killed (heap s2 ! b)"
    using assms(2) len by (auto intro: kl_step_mono)
  from assms i len have "kl_node s s1 i" "kl_node s1 s2 i" by (simp_all add: kl_step_def)
  then show "kl_node s s2 i" using len mono by (rule kl_node_trans)
next
  from assms show "cache_entries s2 \<subseteq> cache_entries s" by (auto simp: kl_step_def)
qed

lemma cleared_simps [simp]:
  "cleared (r\<lparr>parents := p\<rparr>) = cleared r"
  by (simp add: cleared_def)

lemma kl_node_flag:
  assumes "i \<noteq> n"
  shows "kl_node s (upd_node n (\<lambda>r. r\<lparr>killed := True\<rparr>) s) i"
  using assms by (simp add: kl_node_def nth_upd_node)

lemma kl_node_finish:
  assumes "i \<noteq> n" and "n < length (heap s)" and "killed (heap s ! n)"
  shows "kl_node s (kill_finish n s) i"
proof -
  have k: "killed (heap (kill_finish n s) ! n)" using assms(3) by simp
  show ?thesis
  proof (cases "i \<in> set (depends_on_list (heap s ! n)) \<and> i < length (heap s)")
    case True
    with assms(1,2) have "heap (kill_finish n s) ! i
        = (heap s ! i)\<lparr>parents := removeAll n (parents (heap s ! i))\<rparr>"
      by (simp add: kill_finish_other)
    with k assms(2) show ?thesis by (auto simp: kl_node_def)
  next
    case False
    with assms(1,2) have "heap (kill_finish n s) ! i = heap s ! i"
      by (auto simp: kill_finish_other)
    then show ?thesis by (simp add: kl_node_def)
  qed
qed

lemma kill_step:
  "kl_step s (kill n s)"
  "kl_step s (kill_all l s)"
proof (induction n s and l s rule: kill_kill_all.induct)
  case (1 self s)
  show ?case
  proof (cases "self < length (heap s) \<and> \<not> killed (heap s ! self)")
    case False
    then have "kill self s = s" by (auto simp: kill.simps)
    then show ?thesis by (simp add: kl_step_refl)
  next
    case True
    let ?s1 = "upd_node self (\<lambda>r. r\<lparr>killed := True\<rparr>) s"
    let ?s2 = "kill_all (parents (heap s ! self)) ?s1"
    let ?s3 = "kill_finish self ?s2"
    from 1 True have ih: "kl_step ?s1 ?s2" by simp
    have eq: "kill self s = ?s3" using True by (simp add: kill.simps)
    have len1: "length (heap ?s1) = length (heap s)" by simp
    have len2: "length (heap ?s2) = length (heap s)" using ih by (simp add: kl_step_def)
    have k1: "killed (heap ?s1 ! self)" using True by (simp add: nth_upd_node)
    have k2: "killed (heap ?s2 ! self)" using ih k1 True by (auto intro: kl_step_mono)
    have self2: "self < length (heap ?s2)" using True len2 by simp
    have mono12: "\<forall>b<length (heap s). killed (heap ?s1 ! b) \<longrightarrow> killed (heap ?s2 ! b)"
      using ih by (auto intro: kl_step_mono)
    have node: "kl_node s ?s3 i" if i: "i < length (heap s)" for i
    proof (cases "i = self")
      case False
      have a: "kl_node s ?s1 i" using False by (rule kl_node_flag)
      have b: "kl_node ?s1 ?s2 i" using ih i by (simp add: kl_step_def)
      have c: "kl_node ?s2 ?s3 i" using False self2 k2 by (rule kl_node_finish)
      have ab: "kl_node s ?s2 i" using a b len1 mono12 by (rule kl_node_trans)
      show ?thesis using ab c len2 by (rule kl_node_trans) simp
    next
      case self: True
      define p where "p = parents (heap ?s2 ! self)"
      from ih True have "kl_node ?s1 ?s2 self" by (simp add: kl_step_def)
      with k1 k2 have "heap ?s2 ! self = (heap ?s1 ! self)\<lparr>parents := p\<rparr>"
        by (simp add: kl_node_def p_def)
      moreover have "heap ?s1 ! self = (heap s ! self)\<lparr>killed := True\<rparr>"
        using True by (simp add: nth_upd_node)
      ultimately have "heap ?s2 ! self = (heap s ! self)\<lparr>killed := True, parents := p\<rparr>"
        by simp
      then have "cleared (heap ?s2 ! self) = cleared ((heap s ! self)\<lparr>killed := True, parents := p\<rparr>)"
        by (rule arg_cong)
      then have "cleared (heap ?s2 ! self) = dead (heap s ! self)"
        by (simp add: dead_def)
      then have "heap ?s3 ! self = dead (heap s ! self)"
        using self2 by (simp add: kill_finish_self)
      with True self show ?thesis by (simp add: kl_node_def)
    qed
    have "cache_entries ?s3 \<subseteq> cache_entries ?s2" by (rule kill_finish_entries)
    also have "\<dots> \<subseteq> cache_entries ?s1" using ih by (simp add: kl_step_def)
    also have "\<dots> = cache_entries s" by simp
    finally have "cache_entries ?s3 \<subseteq> cache_entries s" .
    with node len2 show ?thesis by (simp add: eq kl_step_def)
  qed
next
  case (2 s)
  show ?case by (simp add: kl_step_refl)
next
  case (3 i rest s)
  from 3 have "kl_step s (kill_all rest (kill i s))" by (rule kl_step_trans)
  then show ?case by simp
qed

lemma kill_flagged:
  assumes "n < length (heap s)"
  shows "killed (heap (kill n s) ! n)"
proof (cases "killed (heap s ! n)")
  case True
  then show ?thesis by (simp add: kill.simps)
next
  case False
  let ?s1 = "upd_node n (\<lambda>r. r\<lparr>killed := True\<rparr>) s"
  have "killed (heap ?s1 ! n)" using assms by (simp add: nth_upd_node)
  moreover have "kl_step ?s1 (kill_all (parents (heap s ! n)) ?s1)" by (rule kill_step)
  ultimately have "killed (heap (kill_all (parents (heap s ! n)) ?s1) ! n)"
    using assms by (auto intro: kl_step_mono)
  with False assms show ?thesis by (simp add: kill.simps)
qed

subsection \<open>The mark phase\<close>

lemma mk_step_refl: "mk_step s s"
  by (simp add: mk_step_def)

lemma mk_step_trans: "mk_step s s1 \<Longrightarrow> mk_step s1 s2 \<Longrightarrow> mk_step s s2"
  unfolding mk_step_def
proof (intro conjI allI impI)
  assume a: "length (heap s1) = length (heap s)
     \<and> (\<forall>i<length (heap s). heap s1 ! i = (heap s ! i)\<lparr>mark := mark (heap s1 ! i)\<rparr>)
     \<and> render_cache s1 = render_cache s \<and> live_renders s1 = live_renders s"
    and b: "length (heap s2) = length (heap s1)
     \<and> (\<forall>i<length (heap s1). heap s2 ! i = (heap s1 ! i)\<lparr>mark := mark (heap s2 ! i)\<rparr>)
     \<and> render_cache s2 = render_cache s1 \<and> live_renders s2 = live_renders s1"
  from a b show "length (heap s2) = length (heap s)" "render_cache s2 = render_cache s"
    "live_renders s2 = live_renders s" by simp_all
  fix i assume i: "i < length (heap s)"
  with a have a1: "heap s1 ! i = (heap s ! i)\<lparr>mark := mark (heap s1 ! i)\<rparr>" by blast
  from i a b have b1: "heap s2 ! i = (heap s1 ! i)\<lparr>mark := mark (heap s2 ! i)\<rparr>" by simp
  show "heap s2 ! i = (heap s ! i)\<lparr>mark := mark (heap s2 ! i)\<rparr>"
    by (subst b1, subst a1) simp
qed

lemma mk_step_set_mark: "mk_step s (set_mark b r s)"
  by (simp add: mk_step_def set_mark_def nth_upd_node)

lemma mk_step_field:
  assumes "mk_step s s'" and "i < length (heap s)"
  shows "depends_on_list (heap s' ! i) = depends_on_list (heap s ! i)"
    and "parents (heap s' ! i) = parents (heap s ! i)"
    and "killed (heap s' ! i) = killed (heap s ! i)"
proof -
  from assms have e: "heap s' ! i = (heap s ! i)\<lparr>mark := mark (heap s' ! i)\<rparr>"
    by (simp add: mk_step_def)
  have "depends_on_list (heap s' ! i) = depends_on_list ((heap s ! i)\<lparr>mark := mark (heap s' ! i)\<rparr>)"
    using e by (rule arg_cong)
  then show "depends_on_list (heap s' ! i) = depends_on_list (heap s ! i)" by simp
  have "parents (heap s' ! i) = parents ((heap s ! i)\<lparr>mark := mark (heap s' ! i)\<rparr>)"
    using e by (rule arg_cong)
  then show "parents (heap s' ! i) = parents (heap s ! i)" by simp
  have "killed (heap s' ! i) = killed ((heap s ! i)\<lparr>mark := mark (heap s' ! i)\<rparr>)"
    using e by (rule arg_cong)
  then show "killed (heap s' ! i) = killed (heap s ! i)" by simp
qed

lemma mk_step_deps_of: "mk_step s s' \<Longrightarrow> deps_of s' r = deps_of s r"
  by (simp add: deps_of_def mk_step_field(1)) (simp add: mk_step_def)

lemma mark_deps_inv:
  assumes "mark_inv s0 roots wl s"
    and "\<forall>j\<in>set js. j < length (heap s0) \<longrightarrow> j \<in> reachable s0 roots"
    and "mark_deps js (wl, s) = (wl', s')"
  shows "mark_inv s0 roots wl' s' \<and> (\<exists>ext. wl' = wl @ ext)
         \<and> (\<forall>j\<in>set js. j < length (heap s0) \<longrightarrow> j \<in> set wl')"
  using assms
proof (induction js arbitrary: wl s)
  case Nil
  then show ?case by simp
next
  case (Cons j js)
  from Cons.prems(1) have len: "length (heap s) = length (heap s0)"
    by (simp add: mark_inv_def mk_step_def)
  show ?case
  proof (cases "j < length (heap s) \<and> \<not> mark (heap s ! j)")
    case True
    let ?s1 = "set_mark True j s"
    have inv1: "mark_inv s0 roots (wl @ [j]) ?s1"
      unfolding mark_inv_def
    proof (intro conjI allI impI ballI)
      from Cons.prems(1) have "mk_step s0 s" by (simp add: mark_inv_def)
      then show "mk_step s0 ?s1" using mk_step_set_mark by (rule mk_step_trans)
    next
      fix m assume "m < length (heap s0)"
      with Cons.prems(1) have "mark (heap s ! m) \<longleftrightarrow> m \<in> set wl" by (simp add: mark_inv_def)
      with True show "mark (heap ?s1 ! m) \<longleftrightarrow> m \<in> set (wl @ [j])"
        by (auto simp: set_mark_def nth_upd_node)
    next
      fix m assume "m \<in> set (wl @ [j])" "m < length (heap s0)"
      with Cons.prems(1,2) show "m \<in> reachable s0 roots" by (auto simp: mark_inv_def)
    next
      from Cons.prems(1) show "set roots \<subseteq> set (wl @ [j])" by (auto simp: mark_inv_def)
    qed
    from True Cons.prems(3) have md: "mark_deps js (wl @ [j], ?s1) = (wl', s')" by simp
    from Cons.prems(2) have r: "\<forall>j\<in>set js. j < length (heap s0) \<longrightarrow> j \<in> reachable s0 roots"
      by simp
    from Cons.IH [OF inv1 r md] show ?thesis by auto
  next
    case False
    with Cons.prems(3) have md: "mark_deps js (wl, s) = (wl', s')" by auto
    from Cons.prems(2) have r: "\<forall>j\<in>set js. j < length (heap s0) \<longrightarrow> j \<in> reachable s0 roots"
      by simp
    from Cons.IH [OF Cons.prems(1) r md]
    have ih: "mark_inv s0 roots wl' s'" "\<exists>ext. wl' = wl @ ext"
      "\<forall>j\<in>set js. j < length (heap s0) \<longrightarrow> j \<in> set wl'" by simp_all
    have "j < length (heap s0) \<longrightarrow> j \<in> set wl'"
    proof
      assume j: "j < length (heap s0)"
      with False len have "mark (heap s ! j)" by simp
      with Cons.prems(1) j have "j \<in> set wl" by (simp add: mark_inv_def)
      with ih(2) show "j \<in> set wl'" by auto
    qed
    with ih show ?thesis by simp
  qed
qed

lemma reachable_step:
  assumes "a \<in> reachable s roots" and "b \<in> set (deps_of s a)" and "b < length (heap s)"
  shows "b \<in> reachable s roots"
proof -
  from assms(1) obtain r where r: "r \<in> set roots" "r < length (heap s)" "(r, a) \<in> (dep_edges s)\<^sup>*"
    by (auto simp: reachable_def)
  have "a < length (heap s)" using assms(2) by (auto simp: deps_of_def split: if_splits)
  with assms(2,3) have "(a, b) \<in> dep_edges s" by (simp add: dep_edges_def deps_of_def)
  with r(3) have "(r, b) \<in> (dep_edges s)\<^sup>*" by (rule rtrancl_into_rtrancl)
  with r(1,2) show ?thesis by (auto simp: reachable_def)
qed

lemma mark_loop_inv:
  assumes "mark_inv s0 roots wl s" and "processed s0 i wl"
    and "mark_loop i wl s = (wl', s')"
  shows "mark_inv s0 roots wl' s' \<and> processed s0 (length wl') wl'"
  using assms
proof (induction i wl s rule: mark_loop.induct)
  case (1 i worklist s)
  show ?case
  proof (cases "i < length worklist")
    case False
    with "1.prems"(3) have e: "wl' = worklist" "s' = s" by (simp_all add: mark_loop.simps)
    have "processed s0 (length worklist) worklist"
      unfolding processed_def
    proof (intro allI impI ballI)
      fix k j assume k: "k < length worklist" and j: "j \<in> set (deps_of s0 (worklist ! k))"
        "j < length (heap s0)"
      from k False have "k < i" by simp
      with "1.prems"(2) j show "j \<in> set worklist" by (auto simp: processed_def)
    qed
    with e "1.prems"(1) show ?thesis by simp
  next
    case True
    let ?r = "worklist ! i"
    from "1.prems"(1) have mk: "mk_step s0 s" by (simp add: mark_inv_def)
    have deps: "deps_of s ?r = deps_of s0 ?r" using mk by (rule mk_step_deps_of)
    obtain wl1 s1 where md: "mark_deps (deps_of s ?r) (worklist, s) = (wl1, s1)"
      by (cases "mark_deps (deps_of s ?r) (worklist, s)")
    with True "1.prems"(3) have ml: "mark_loop (i + 1) wl1 s1 = (wl', s')"
      by (simp add: mark_loop.simps)
    have reach: "\<forall>j\<in>set (deps_of s ?r). j < length (heap s0) \<longrightarrow> j \<in> reachable s0 roots"
    proof (intro ballI impI)
      fix j assume j: "j \<in> set (deps_of s ?r)" "j < length (heap s0)"
      from j(1) have "j \<in> set (deps_of s0 ?r)" by (simp only: deps)
      then have rl: "?r < length (heap s0)"
        by (auto simp: deps_of_def split: if_splits)
      from True have "?r \<in> set worklist" by simp
      with "1.prems"(1) rl have "?r \<in> reachable s0 roots" by (simp add: mark_inv_def)
      with j show "j \<in> reachable s0 roots" by (auto simp: deps intro: reachable_step)
    qed
    from mark_deps_inv [OF "1.prems"(1) reach md]
    have inv1: "mark_inv s0 roots wl1 s1" and ext: "\<exists>ext. wl1 = worklist @ ext"
      and got: "\<forall>j\<in>set (deps_of s ?r). j < length (heap s0) \<longrightarrow> j \<in> set wl1"
      by simp_all
    from ext obtain ext where wl1: "wl1 = worklist @ ext" by blast
    have proc1: "processed s0 (i + 1) wl1"
      unfolding processed_def
    proof (intro allI impI ballI)
      fix k j assume k: "k < i + 1" and j: "j \<in> set (deps_of s0 (wl1 ! k))" "j < length (heap s0)"
      from k True have kk: "wl1 ! k = worklist ! k" by (simp add: wl1 nth_append)
      show "j \<in> set wl1"
      proof (cases "k = i")
        case True
        with j kk got deps show ?thesis by simp
      next
        case False
        with k have "k < i" by simp
        with "1.prems"(2) j kk have "j \<in> set worklist" by (auto simp: processed_def)
        then show ?thesis by (simp add: wl1)
      qed
    qed
    from "1.IH" [OF True md [symmetric] inv1 proc1 ml] show ?thesis .
  qed
qed

lemma closed_reachable:
  assumes "set roots \<subseteq> set wl" and "processed s (length wl) wl" and "m \<in> reachable s roots"
  shows "m \<in> set wl"
proof -
  from assms(3) obtain r where r: "r \<in> set roots" "r < length (heap s)" "(r, m) \<in> (dep_edges s)\<^sup>*"
    by (auto simp: reachable_def)
  from r(3) show ?thesis
  proof (induction rule: rtrancl_induct)
    case base
    from r(1) assms(1) show ?case by auto
  next
    case (step a b)
    from step.IH obtain k where k: "k < length wl" "wl ! k = a" by (auto simp: in_set_conv_nth)
    from step.hyps(2) have "b \<in> set (deps_of s a)" "b < length (heap s)"
      by (auto simp: dep_edges_def deps_of_def)
    with assms(2) k show ?case by (auto simp: processed_def)
  qed
qed

lemma nth_fold_set_mark:
  "heap (fold (set_mark True) l s) ! j
     = (if j \<in> set l \<and> j < length (heap s) then (heap s ! j)\<lparr>mark := True\<rparr> else heap s ! j)"
proof -
  have "set_mark True = (\<lambda>i. upd_node i (\<lambda>n. n\<lparr>mark := True\<rparr>))"
    by (intro ext) (simp add: set_mark_def)
  then show ?thesis by (simp only:) (rule nth_fold_upd_idem, simp)
qed

lemma fold_set_mark_fields [simp]:
  "length (heap (fold (set_mark b) l s)) = length (heap s)"
  "render_cache (fold (set_mark b) l s) = render_cache s"
  "live_renders (fold (set_mark b) l s) = live_renders s"
  by (induction l arbitrary: s) (simp_all add: set_mark_def)

lemma mark_roots_inv:
  assumes "\<forall>i<length (heap s). \<not> mark (heap s ! i)"
  shows "mark_inv s roots roots (fold (set_mark True) roots s)"
  unfolding mark_inv_def mk_step_def
  using assms by (auto simp: nth_fold_set_mark reachable_def)

lemma mark_phase_marks:
  assumes "\<forall>i<length (heap s). \<not> mark (heap s ! i)" and "mark_phase roots s = (wl, s')"
  shows "mk_step s s'"
    and "\<forall>m<length (heap s). mark (heap s' ! m) \<longleftrightarrow> m \<in> reachable s roots"
    and "\<forall>m<length (heap s). m \<in> set wl \<longleftrightarrow> m \<in> reachable s roots"
proof -
  have p0: "processed s 0 roots" by (simp add: processed_def)
  from mark_loop_inv [OF mark_roots_inv [OF assms(1)] p0 assms(2) [unfolded mark_phase_def]]
  have inv: "mark_inv s roots wl s'" and pr: "processed s (length wl) wl" by simp_all
  from inv show "mk_step s s'" by (simp add: mark_inv_def)
  from inv have r: "set roots \<subseteq> set wl" by (simp add: mark_inv_def)
  show w: "\<forall>m<length (heap s). m \<in> set wl \<longleftrightarrow> m \<in> reachable s roots"
    using inv closed_reachable [OF r pr] by (auto simp: mark_inv_def)
  with inv show "\<forall>m<length (heap s). mark (heap s' ! m) \<longleftrightarrow> m \<in> reachable s roots"
    by (simp add: mark_inv_def)
qed

subsection \<open>The sweep\<close>

lemma keeps_refl: "keeps M s s"
  by (simp add: keeps_def)

lemma keeps_trans:
  "keeps M s s1 \<Longrightarrow> keeps M s1 s2 \<Longrightarrow> length (heap s1) = length (heap s) \<Longrightarrow> keeps M s s2"
  by (simp add: keeps_def)

lemma kl_node_parents:
  assumes "kl_node s s' i"
  shows "set (parents (heap s' ! i)) \<subseteq> set (parents (heap s ! i))"
  using assms by (auto simp: kl_node_def split: if_splits)

lemma prot_step:
  assumes "prot s M" and "length (heap s') = length (heap s)"
    and "\<forall>i<length (heap s). set (parents (heap s' ! i)) \<subseteq> set (parents (heap s ! i))"
    and "\<forall>i<length (heap s). killed (heap s ! i) \<longrightarrow> killed (heap s' ! i)"
  shows "prot s' M"
  unfolding prot_def
proof (intro allI impI ballI)
  fix x p
  assume x: "x < length (heap s')" "x \<notin> M \<and> \<not> killed (heap s' ! x)"
    and p: "p \<in> set (parents (heap s' ! x))" "p \<in> M \<and> p < length (heap s')"
  from x(1) assms(2,3) p(1) have "p \<in> set (parents (heap s ! x))" by auto
  moreover from x assms(2,4) have "\<not> killed (heap s ! x)" by auto
  ultimately have "killed (heap s ! p)" using assms(1,2) x p(2) unfolding prot_def by auto
  with assms(2,4) p(2) show "killed (heap s' ! p)" by auto
qed

lemma prot_kl_step:
  assumes "prot s M" and "kl_step s s'"
  shows "prot s' M"
  using assms(1)
proof (rule prot_step)
  from assms(2) show "length (heap s') = length (heap s)" by (simp add: kl_step_def)
  from assms(2) show "\<forall>i<length (heap s). set (parents (heap s' ! i)) \<subseteq> set (parents (heap s ! i))"
    by (auto simp: kl_step_def dest: kl_node_parents)
  from assms(2) show "\<forall>i<length (heap s). killed (heap s ! i) \<longrightarrow> killed (heap s' ! i)"
    by (auto intro: kl_step_mono)
qed

lemma kill_protects:
  "prot s M \<Longrightarrow> (n \<in> M \<longrightarrow> n < length (heap s) \<longrightarrow> killed (heap s ! n))
     \<Longrightarrow> keeps M s (kill n s)"
  "prot s M \<Longrightarrow> (\<forall>i\<in>set l. i \<in> M \<longrightarrow> i < length (heap s) \<longrightarrow> killed (heap s ! i))
     \<Longrightarrow> keeps M s (kill_all l s)"
proof (induction n s and l s rule: kill_kill_all.induct)
  case (1 self s)
  show ?case
  proof (cases "self < length (heap s) \<and> \<not> killed (heap s ! self)")
    case False
    then have "kill self s = s" by (auto simp: kill.simps)
    then show ?thesis by (simp add: keeps_refl)
  next
    case True
    let ?s1 = "upd_node self (\<lambda>r. r\<lparr>killed := True\<rparr>) s"
    let ?s2 = "kill_all (parents (heap s ! self)) ?s1"
    have eq: "kill self s = kill_finish self ?s2" using True by (simp add: kill.simps)
    from True "1.prems"(2) have notM: "self \<notin> M" by auto
    have p1: "prot ?s1 M"
      using "1.prems"(1) by (rule prot_step) (auto simp: nth_upd_node)
    have pre: "\<forall>i\<in>set (parents (heap s ! self)). i \<in> M \<longrightarrow> i < length (heap ?s1)
                 \<longrightarrow> killed (heap ?s1 ! i)"
    proof (intro ballI impI)
      fix i assume "i \<in> set (parents (heap s ! self))" "i \<in> M" "i < length (heap ?s1)"
      with "1.prems"(1) True notM have "killed (heap s ! i)" unfolding prot_def by auto
      then show "killed (heap ?s1 ! i)" by (simp add: nth_upd_node)
    qed
    from "1.IH" [OF True p1 pre] have k12: "keeps M ?s1 ?s2" .
    have k01: "keeps M s ?s1" using notM by (auto simp: keeps_def nth_upd_node)
    have "keeps M s ?s2" using k01 k12 by (rule keeps_trans) simp
    then show ?thesis by (simp add: eq keeps_def)
  qed
next
  case (2 s)
  show ?case by (simp add: keeps_refl)
next
  case (3 i rest s)
  from "3.prems" have ki: "keeps M s (kill i s)" by (intro "3.IH"(1)) simp_all
  have st: "kl_step s (kill i s)" by (rule kill_step)
  then have len: "length (heap (kill i s)) = length (heap s)" by (simp add: kl_step_def)
  have p: "prot (kill i s) M" using "3.prems"(1) st by (rule prot_kl_step)
  have pre: "\<forall>j\<in>set rest. j \<in> M \<longrightarrow> j < length (heap (kill i s)) \<longrightarrow> killed (heap (kill i s) ! j)"
    using "3.prems"(2) ki len by (auto simp: keeps_def)
  from "3.IH"(2) [OF p pre] have "keeps M (kill i s) (kill_all rest (kill i s))" .
  with ki have "keeps M s (kill_all rest (kill i s))" using len by (rule keeps_trans)
  then show ?case by simp
qed

lemma erase_marks_fields [simp]:
  "length (heap (erase_marks s)) = length (heap s)"
  "cache_entries (erase_marks s) = cache_entries s"
  by (simp_all add: erase_marks_def cache_entries_def)

lemma nth_erase_marks:
  "i < length (heap s) \<Longrightarrow> heap (erase_marks s) ! i = (heap s ! i)\<lparr>mark := False\<rparr>"
  by (simp add: erase_marks_def)

lemma dead_mark: "dead (r\<lparr>mark := b\<rparr>) = (dead r)\<lparr>mark := b\<rparr>"
  by (simp add: dead_def cleared_def)

lemma kl_node_erase:
  assumes "kl_node s s' i" and "i < length (heap s)" and "length (heap s') = length (heap s)"
  shows "kl_node (erase_marks s) (erase_marks s') i"
proof (cases "killed (heap s' ! i) = killed (heap s ! i)")
  case True
  with assms(1) have a: "heap s' ! i = (heap s ! i)\<lparr>parents := parents (heap s' ! i)\<rparr>"
    and b: "set (parents (heap s' ! i)) \<subseteq> set (parents (heap s ! i))"
    and c: "\<forall>b\<in>set (parents (heap s ! i)) - set (parents (heap s' ! i)).
                 b < length (heap s) \<and> killed (heap s' ! b)"
    by (simp_all add: kl_node_def)
  define p where "p = parents (heap s' ! i)"
  from a have "(heap s' ! i)\<lparr>mark := False\<rparr> = (heap s ! i)\<lparr>parents := p\<rparr>\<lparr>mark := False\<rparr>"
    unfolding p_def by (rule arg_cong)
  then have a': "(heap s' ! i)\<lparr>mark := False\<rparr> = (heap s ! i)\<lparr>mark := False, parents := p\<rparr>"
    by simp
  have c': "\<forall>b\<in>set (parents (heap s ! i)) - set p.
               b < length (heap s) \<and> killed (heap s' ! b)"
    using c by (simp add: p_def)
  from True a' b c' assms(2,3) show ?thesis
    by (simp add: kl_node_def nth_erase_marks p_def [symmetric])
next
  case False
  with assms(1) have "killed (heap s' ! i)" "heap s' ! i = dead (heap s ! i)"
    by (simp_all add: kl_node_def)
  with False assms(2,3) show ?thesis
    by (simp add: kl_node_def nth_erase_marks dead_mark)
qed

lemma kl_step_erase: "kl_step s s' \<Longrightarrow> kl_step (erase_marks s) (erase_marks s')"
  by (simp add: kl_step_def kl_node_erase)

lemma erase_set_mark: "erase_marks (set_mark b r s) = erase_marks s"
proof (cases "r < length (heap s)")
  case True
  have "map (\<lambda>r. r\<lparr>mark := False\<rparr>) ((heap s)[r := (heap s ! r)\<lparr>mark := b\<rparr>])
          = (map (\<lambda>r. r\<lparr>mark := False\<rparr>) (heap s))[r := (map (\<lambda>r. r\<lparr>mark := False\<rparr>) (heap s)) ! r]"
    using True by (simp add: map_update)
  then show ?thesis by (simp add: erase_marks_def set_mark_def upd_node_def)
next
  case False
  then show ?thesis by (simp add: erase_marks_def set_mark_def upd_node_def list_update_beyond)
qed

lemma kl_step_mark:
  assumes "kl_step s s'" and "i < length (heap s)"
  shows "mark (heap s' ! i) = mark (heap s ! i)"
proof -
  from assms have n: "kl_node s s' i" by (simp add: kl_step_def)
  show ?thesis
  proof (cases "killed (heap s' ! i) = killed (heap s ! i)")
    case True
    with n have "heap s' ! i = (heap s ! i)\<lparr>parents := parents (heap s' ! i)\<rparr>"
      by (simp add: kl_node_def)
    then have "mark (heap s' ! i) = mark ((heap s ! i)\<lparr>parents := parents (heap s' ! i)\<rparr>)"
      by (rule arg_cong)
    then show ?thesis by simp
  next
    case False
    with n have "heap s' ! i = dead (heap s ! i)" by (simp add: kl_node_def)
    then show ?thesis by simp
  qed
qed

lemma sweep_one_length [simp]: "length (heap (sweep_one r s)) = length (heap s)"
  using kill_step(1) [of s r] by (simp add: sweep_one_def kl_step_def set_mark_def)

lemma sweep_length [simp]: "length (heap (fold sweep_one l s)) = length (heap s)"
  by (induction l arbitrary: s) simp_all

lemma sweep_one_frame: "kl_step (erase_marks s) (erase_marks (sweep_one r s))"
  by (simp add: sweep_one_def erase_set_mark kl_step_refl kl_step_erase kill_step)

lemma sweep_frame: "kl_step (erase_marks s) (erase_marks (fold sweep_one l s))"
proof (induction l arbitrary: s)
  case Nil
  show ?case by (simp add: kl_step_refl)
next
  case (Cons r l)
  have "kl_step (erase_marks s) (erase_marks (fold sweep_one l (sweep_one r s)))"
    using sweep_one_frame Cons by (rule kl_step_trans)
  then show ?case by simp
qed

lemma sweep_one_mark:
  assumes "i < length (heap s)" and "i \<noteq> r"
  shows "mark (heap (sweep_one r s) ! i) = mark (heap s ! i)"
  using assms kl_step_mark [OF kill_step(1), of i s r]
  by (simp add: sweep_one_def set_mark_def nth_upd_node)

lemma sweep_one_killed:
  assumes "i < length (heap s)" and "killed (heap s ! i)"
  shows "killed (heap (sweep_one r s) ! i)"
proof (cases "mark (heap s ! r)")
  case True
  with assms show ?thesis by (auto simp: sweep_one_def set_mark_def nth_upd_node)
next
  case False
  with assms kl_step_mono [OF kill_step(1), of i s r] show ?thesis by (simp add: sweep_one_def)
qed

lemma sweep_one_unmarked:
  assumes "i < length (heap s)" and "\<not> mark (heap s ! i)"
  shows "\<not> mark (heap (sweep_one r s) ! i)"
proof (cases "mark (heap s ! r)")
  case True
  with assms show ?thesis by (auto simp: sweep_one_def set_mark_def nth_upd_node)
next
  case False
  with assms kl_step_mark [OF kill_step(1), of i s r] show ?thesis by (simp add: sweep_one_def)
qed

lemma sweep_unmarked:
  "i < length (heap s) \<Longrightarrow> \<not> mark (heap s ! i) \<Longrightarrow> \<not> mark (heap (fold sweep_one l s) ! i)"
  by (induction l arbitrary: s) (simp_all add: sweep_one_unmarked)

lemma sweep_killed:
  "i < length (heap s) \<Longrightarrow> killed (heap s ! i) \<Longrightarrow> killed (heap (fold sweep_one l s) ! i)"
  by (induction l arbitrary: s) (simp_all add: sweep_one_killed)

lemma sweep_kills:
  assumes "distinct l" and "r \<in> set l" and "r < length (heap s)" and "\<not> mark (heap s ! r)"
  shows "killed (heap (fold sweep_one l s) ! r)"
  using assms
proof (induction l arbitrary: s)
  case Nil
  then show ?case by simp
next
  case (Cons h l)
  show ?case
  proof (cases "h = r")
    case True
    with Cons.prems have "killed (heap (sweep_one h s) ! r)"
      by (simp add: sweep_one_def kill_flagged)
    then show ?thesis using Cons.prems(3) by (simp add: sweep_killed)
  next
    case False
    with Cons.prems have "r \<in> set l" "distinct l" by simp_all
    moreover have "\<not> mark (heap (sweep_one h s) ! r)"
      using Cons.prems(3,4) False by (simp add: sweep_one_mark)
    ultimately show ?thesis using Cons.IH [of "sweep_one h s"] Cons.prems(3) by simp
  qed
qed

lemma sweep_unmarks:
  assumes "r \<in> set l" and "r < length (heap s)"
  shows "\<not> mark (heap (fold sweep_one l s) ! r)"
  using assms
proof (induction l arbitrary: s)
  case Nil
  then show ?case by simp
next
  case (Cons h l)
  show ?case
  proof (cases "h = r")
    case True
    have "\<not> mark (heap (sweep_one r s) ! r)"
    proof (cases "mark (heap s ! r)")
      case True
      with Cons.prems(2) show ?thesis by (simp add: sweep_one_def set_mark_def nth_upd_node)
    next
      case False
      with Cons.prems(2) show ?thesis by (simp add: sweep_one_unmarked)
    qed
    with True Cons.prems(2) show ?thesis by (simp add: sweep_unmarked)
  next
    case False
    with Cons.prems have "r \<in> set l" by simp
    with Cons.IH [of "sweep_one h s"] Cons.prems(2) show ?thesis by simp
  qed
qed

lemma sweep_protects:
  assumes "prot s M" and "distinct l"
    and "\<forall>r\<in>set l. r \<in> M \<longrightarrow> r < length (heap s) \<longrightarrow> mark (heap s ! r)"
  shows "keeps M s (fold sweep_one l s)"
  using assms
proof (induction l arbitrary: s)
  case Nil
  show ?case by (simp add: keeps_refl)
next
  case (Cons r l)
  let ?s1 = "sweep_one r s"
  have k: "keeps M s ?s1"
  proof (cases "mark (heap s ! r)")
    case True
    then show ?thesis by (simp add: sweep_one_def keeps_def set_mark_def nth_upd_node)
  next
    case False
    with Cons.prems(3) have "r \<in> M \<longrightarrow> r < length (heap s) \<longrightarrow> killed (heap s ! r)" by auto
    with Cons.prems(1) have "keeps M s (kill r s)" by (rule kill_protects(1))
    with False show ?thesis by (simp add: sweep_one_def)
  qed
  have p: "prot ?s1 M"
  proof (cases "mark (heap s ! r)")
    case True
    show ?thesis using Cons.prems(1)
      by (rule prot_step) (auto simp: True sweep_one_def set_mark_def nth_upd_node)
  next
    case False
    then have "?s1 = kill r s" by (simp add: sweep_one_def)
    with Cons.prems(1) kill_step(1) [of s r] show ?thesis by (simp add: prot_kl_step)
  qed
  have pre: "\<forall>x\<in>set l. x \<in> M \<longrightarrow> x < length (heap ?s1) \<longrightarrow> mark (heap ?s1 ! x)"
  proof (intro ballI impI)
    fix x assume x: "x \<in> set l" "x \<in> M" "x < length (heap ?s1)"
    with Cons.prems(2) have ne: "x \<noteq> r" by auto
    from x have xl: "x < length (heap s)" by simp
    from x Cons.prems(3) xl have "mark (heap s ! x)" by simp
    with sweep_one_mark [OF xl ne] show "mark (heap ?s1 ! x)" by simp
  qed
  from Cons.prems(2) have "distinct l" by simp
  from Cons.IH [OF p this pre] have "keeps M ?s1 (fold sweep_one l ?s1)" .
  with k have "keeps M s (fold sweep_one l ?s1)" by (rule keeps_trans) simp
  then show ?case by simp
qed

lemma kl_node_live:
  assumes "kl_node s s' i" and "\<not> killed (heap s' ! i)"
  shows "\<not> killed (heap s ! i)"
    and "depends_on_list (heap s' ! i) = depends_on_list (heap s ! i)"
    and "set (parents (heap s' ! i)) \<subseteq> set (parents (heap s ! i))"
    and "\<forall>b\<in>set (parents (heap s ! i)) - set (parents (heap s' ! i)). killed (heap s' ! b)"
proof -
  from assms have k: "killed (heap s' ! i) = killed (heap s ! i)"
    by (auto simp: kl_node_def split: if_splits)
  with assms(2) show "\<not> killed (heap s ! i)" by simp
  from assms(1) k have e: "heap s' ! i = (heap s ! i)\<lparr>parents := parents (heap s' ! i)\<rparr>"
    and p: "set (parents (heap s' ! i)) \<subseteq> set (parents (heap s ! i))"
    and r: "\<forall>b\<in>set (parents (heap s ! i)) - set (parents (heap s' ! i)).
               b < length (heap s) \<and> killed (heap s' ! b)"
    by (simp_all add: kl_node_def)
  have "depends_on_list (heap s' ! i)
          = depends_on_list ((heap s ! i)\<lparr>parents := parents (heap s' ! i)\<rparr>)"
    using e by (rule arg_cong)
  then show "depends_on_list (heap s' ! i) = depends_on_list (heap s ! i)" by simp
  show "set (parents (heap s' ! i)) \<subseteq> set (parents (heap s ! i))" by (rule p)
  from r show "\<forall>b\<in>set (parents (heap s ! i)) - set (parents (heap s' ! i)). killed (heap s' ! b)"
    by blast
qed

lemma kl_node_same:
  assumes "kl_node s s' i" and "killed (heap s' ! i) = killed (heap s ! i)"
  shows "depends_on_list (heap s' ! i) = depends_on_list (heap s ! i)"
proof -
  from assms have e: "heap s' ! i = (heap s ! i)\<lparr>parents := parents (heap s' ! i)\<rparr>"
    by (simp add: kl_node_def)
  have "depends_on_list (heap s' ! i)
          = depends_on_list ((heap s ! i)\<lparr>parents := parents (heap s' ! i)\<rparr>)"
    using e by (rule arg_cong)
  then show ?thesis by simp
qed

lemma unlinks_refl: "unlinks s s"
  by (auto simp: unlinks_def collected_def)

lemma collected_trans:
  assumes "kl_step s s1" and "kl_step s1 s2" and "p < length (heap s)"
  shows "collected s s2 p \<and> i \<in> set (depends_on_list (heap s ! p))
         \<longleftrightarrow> (collected s s1 p \<and> i \<in> set (depends_on_list (heap s ! p)))
             \<or> (collected s1 s2 p \<and> i \<in> set (depends_on_list (heap s1 ! p)))"
proof -
  from assms(1) have len: "length (heap s1) = length (heap s)" by (simp add: kl_step_def)
  from assms(1,3) have n1: "kl_node s s1 p" by (simp add: kl_step_def)
  have m1: "killed (heap s ! p) \<Longrightarrow> killed (heap s1 ! p)"
    using assms(1,3) by (rule kl_step_mono)
  have m2: "killed (heap s1 ! p) \<Longrightarrow> killed (heap s2 ! p)"
    using assms(2) assms(3) by (intro kl_step_mono [of s1 s2]) (simp_all add: len)
  have d: "\<not> killed (heap s1 ! p) \<Longrightarrow> depends_on_list (heap s1 ! p) = depends_on_list (heap s ! p)"
    using n1 by (rule kl_node_live(2))
  show ?thesis
  proof (cases "killed (heap s1 ! p)")
    case True
    with m2 assms(3) len show ?thesis by (auto simp: collected_def)
  next
    case False
    with m1 d assms(3) len show ?thesis by (auto simp: collected_def)
  qed
qed

lemma unlinks_trans:
  assumes "kl_step s s1" and "kl_step s1 s2" and "unlinks s s1" and "unlinks s1 s2"
  shows "unlinks s s2"
  unfolding unlinks_def
proof (intro allI impI)
  fix i assume i: "i < length (heap s)" and k: "killed (heap s2 ! i) = killed (heap s ! i)"
  from assms(1) have len: "length (heap s1) = length (heap s)" by (simp add: kl_step_def)
  have m1: "killed (heap s ! i) \<Longrightarrow> killed (heap s1 ! i)"
    using assms(1) i by (rule kl_step_mono)
  have m2: "killed (heap s1 ! i) \<Longrightarrow> killed (heap s2 ! i)"
    using assms(2) i by (intro kl_step_mono [of s1 s2]) (simp_all add: len)
  from k m1 m2 have k1: "killed (heap s1 ! i) = killed (heap s ! i)"
    and k2: "killed (heap s2 ! i) = killed (heap s1 ! i)" by auto
  from assms(3) i k1 have a: "set (parents (heap s1 ! i))
          = {p \<in> set (parents (heap s ! i)).
               \<not> (collected s s1 p \<and> i \<in> set (depends_on_list (heap s ! p)))}"
    by (simp add: unlinks_def)
  from assms(4) i k2 len have b: "set (parents (heap s2 ! i))
          = {p \<in> set (parents (heap s1 ! i)).
               \<not> (collected s1 s2 p \<and> i \<in> set (depends_on_list (heap s1 ! p)))}"
    by (simp add: unlinks_def)
  have c: "(collected s s2 p \<and> i \<in> set (depends_on_list (heap s ! p)))
         \<longleftrightarrow> (collected s s1 p \<and> i \<in> set (depends_on_list (heap s ! p)))
             \<or> (collected s1 s2 p \<and> i \<in> set (depends_on_list (heap s1 ! p)))" for p
  proof (cases "p < length (heap s)")
    case True
    with assms(1,2) show ?thesis by (rule collected_trans)
  next
    case False
    with len show ?thesis by (simp add: collected_def)
  qed
  show "set (parents (heap s2 ! i))
          = {p \<in> set (parents (heap s ! i)).
               \<not> (collected s s2 p \<and> i \<in> set (depends_on_list (heap s ! p)))}"
    unfolding b a c by blast
qed

lemma kill_unlinks:
  "unlinks s (kill n s)"
  "unlinks s (kill_all l s)"
proof (induction n s and l s rule: kill_kill_all.induct)
  case (1 self s)
  show ?case
  proof (cases "self < length (heap s) \<and> \<not> killed (heap s ! self)")
    case False
    then have "kill self s = s" by (auto simp: kill.simps)
    then show ?thesis by (simp add: unlinks_refl)
  next
    case True
    let ?s1 = "upd_node self (\<lambda>r. r\<lparr>killed := True\<rparr>) s"
    let ?s2 = "kill_all (parents (heap s ! self)) ?s1"
    let ?s3 = "kill_finish self ?s2"
    have eq: "kill self s = ?s3" using True by (simp add: kill.simps)
    from "1.IH" [OF True] have ih: "unlinks ?s1 ?s2" .
    have st: "kl_step ?s1 ?s2" by (rule kill_step)
    then have len2: "length (heap ?s2) = length (heap s)" by (simp add: kl_step_def)
    from True have sl: "self < length (heap s)" and live: "\<not> killed (heap s ! self)" by simp_all
    have k1: "killed (heap ?s1 ! self)" using sl by (simp add: nth_upd_node)
    with st sl have k2: "killed (heap ?s2 ! self)" by (intro kl_step_mono [of ?s1 ?s2]) simp_all
    from st sl have "kl_node ?s1 ?s2 self" by (simp add: kl_step_def)
    then have "depends_on_list (heap ?s2 ! self) = depends_on_list (heap ?s1 ! self)"
      using k1 k2 by (intro kl_node_same) simp_all
    then have d2: "depends_on_list (heap ?s2 ! self) = depends_on_list (heap s ! self)"
      using sl by (simp add: nth_upd_node)
    show ?thesis
      unfolding eq unlinks_def
    proof (intro allI impI)
      fix i assume i: "i < length (heap s)"
        and k: "killed (heap ?s3 ! i) = killed (heap s ! i)"
      from k k2 live have ne: "i \<noteq> self" by auto
      from ne have f1: "heap ?s1 ! i = heap s ! i" by (simp add: nth_upd_node)
      from k have k12: "killed (heap ?s2 ! i) = killed (heap ?s1 ! i)" by (simp add: f1)
      from ih i k12 have a: "set (parents (heap ?s2 ! i))
          = {p \<in> set (parents (heap s ! i)).
               \<not> (collected ?s1 ?s2 p \<and> i \<in> set (depends_on_list (heap ?s1 ! p)))}"
        by (simp add: unlinks_def f1)
      have b: "set (parents (heap ?s3 ! i))
          = {p \<in> set (parents (heap ?s2 ! i)).
               \<not> (p = self \<and> i \<in> set (depends_on_list (heap s ! self)))}"
        using i ne sl by (auto simp: kill_finish_other len2 d2)
      have c: "(collected s ?s3 p \<and> i \<in> set (depends_on_list (heap s ! p)))
           \<longleftrightarrow> (collected ?s1 ?s2 p \<and> i \<in> set (depends_on_list (heap ?s1 ! p)))
               \<or> (p = self \<and> i \<in> set (depends_on_list (heap s ! self)))" for p
      proof (cases "p = self")
        case True
        with sl live k1 k2 show ?thesis by (simp add: collected_def)
      next
        case False
        then have "heap ?s1 ! p = heap s ! p" by (simp add: nth_upd_node)
        with False show ?thesis by (simp add: collected_def)
      qed
      show "set (parents (heap ?s3 ! i))
          = {p \<in> set (parents (heap s ! i)).
               \<not> (collected s ?s3 p \<and> i \<in> set (depends_on_list (heap s ! p)))}"
        unfolding b a c by blast
    qed
  qed
next
  case (2 s)
  show ?case by (simp add: unlinks_refl)
next
  case (3 i rest s)
  have "unlinks s (kill_all rest (kill i s))"
    using kill_step(1) kill_step(2) "3.IH"(1) "3.IH"(2) by (rule unlinks_trans)
  then show ?case by simp
qed

lemma unlinks_erase:
  assumes "length (heap s') = length (heap s)"
  shows "unlinks (erase_marks s) (erase_marks s') = unlinks s s'"
proof -
  have c: "collected (erase_marks s) (erase_marks s') p = collected s s' p" for p
    using assms by (auto simp: collected_def nth_erase_marks)
  have d: "p \<in> set (parents (heap s ! i)) \<Longrightarrow> collected s s' p \<Longrightarrow>
             depends_on_list (heap (erase_marks s) ! p) = depends_on_list (heap s ! p)" for p i
    by (simp add: collected_def nth_erase_marks)
  show ?thesis
    unfolding unlinks_def c
    using assms
    by (auto simp: nth_erase_marks collected_def)
qed

lemma sweep_one_unlinks: "unlinks (erase_marks s) (erase_marks (sweep_one r s))"
proof (cases "mark (heap s ! r)")
  case True
  then show ?thesis by (simp add: sweep_one_def erase_set_mark unlinks_refl)
next
  case False
  have "length (heap (kill r s)) = length (heap s)"
    using kill_step(1) [of s r] by (simp add: kl_step_def)
  then have "unlinks (erase_marks s) (erase_marks (kill r s))"
    by (simp add: unlinks_erase kill_unlinks)
  with False show ?thesis by (simp add: sweep_one_def)
qed

lemma sweep_unlinks: "unlinks (erase_marks s) (erase_marks (fold sweep_one l s))"
proof (induction l arbitrary: s)
  case Nil
  show ?case by (simp add: unlinks_refl)
next
  case (Cons r l)
  have "unlinks (erase_marks s) (erase_marks (fold sweep_one l (sweep_one r s)))"
    using sweep_one_frame sweep_frame sweep_one_unlinks Cons by (rule unlinks_trans)
  then show ?case by simp
qed

subsection \<open>The collection as a whole\<close>

lemma reachable_in_heap: "m \<in> reachable s roots \<Longrightarrow> m < length (heap s)"
proof -
  assume "m \<in> reachable s roots"
  then obtain r where r: "r < length (heap s)" "(r, m) \<in> (dep_edges s)\<^sup>*"
    by (auto simp: reachable_def)
  from r(2) r(1) show ?thesis
    by (induction rule: rtrancl_induct) (simp_all add: dep_edges_def)
qed

lemma reachable_closed:
  assumes "p \<in> reachable s roots" and "x \<in> set (depends_on_list (heap s ! p))"
    and "x < length (heap s)"
  shows "x \<in> reachable s roots"
proof -
  from assms(1) have "p < length (heap s)" by (rule reachable_in_heap)
  with assms(2) have "x \<in> set (deps_of s p)" by (simp add: deps_of_def)
  with assms(1) show ?thesis using assms(3) by (rule reachable_step)
qed

lemma mirrored_prot:
  assumes "edges_mirrored s"
  shows "prot s (reachable s roots)"
  unfolding prot_def
proof (intro allI impI ballI)
  fix x p
  assume x: "x < length (heap s)" "x \<notin> reachable s roots \<and> \<not> killed (heap s ! x)"
    and p: "p \<in> set (parents (heap s ! x))" "p \<in> reachable s roots \<and> p < length (heap s)"
  show "killed (heap s ! p)"
  proof (rule ccontr)
    assume "\<not> killed (heap s ! p)"
    with assms x p have "x \<in> set (depends_on_list (heap s ! p))"
      unfolding edges_mirrored_def by blast
    with p(2) x(1) have "x \<in> reachable s roots" by (blast intro: reachable_closed)
    with x(2) show False by simp
  qed
qed

lemma prot_mk_step:
  assumes "prot s M" and "mk_step s s'"
  shows "prot s' M"
  using assms(1)
proof (rule prot_step)
  from assms(2) show "length (heap s') = length (heap s)" by (simp add: mk_step_def)
  from assms(2) show "\<forall>i<length (heap s). set (parents (heap s' ! i)) \<subseteq> set (parents (heap s ! i))"
    by (simp add: mk_step_field)
  from assms(2) show "\<forall>i<length (heap s). killed (heap s ! i) \<longrightarrow> killed (heap s' ! i)"
    by (simp add: mk_step_field)
qed

lemma mark_video_step: "mk_step s (mark_video ob s)"
  by (cases ob) (simp_all add: mark_video_def mk_step_set_mark mk_step_refl)

lemma mark_video_mark:
  assumes "i < length (heap s)"
  shows "mark (heap (mark_video ob s) ! i) \<longleftrightarrow> mark (heap s ! i) \<or> ob = Render i"
  using assms by (cases ob) (auto simp: mark_video_def set_mark_def nth_upd_node)

lemma mark_videos:
  "mk_step s (fold mark_video obs s)
   \<and> (\<forall>i<length (heap s). mark (heap (fold mark_video obs s) ! i)
                              \<longleftrightarrow> mark (heap s ! i) \<or> Render i \<in> set obs)"
proof (induction obs arbitrary: s)
  case Nil
  show ?case by (simp add: mk_step_refl)
next
  case (Cons ob obs)
  let ?s1 = "mark_video ob s"
  have st: "mk_step s ?s1" by (rule mark_video_step)
  then have len: "length (heap ?s1) = length (heap s)" by (simp add: mk_step_def)
  from Cons [of ?s1] have ih: "mk_step ?s1 (fold mark_video obs ?s1)"
    and im: "\<forall>i<length (heap s). mark (heap (fold mark_video obs ?s1) ! i)
                              \<longleftrightarrow> mark (heap ?s1 ! i) \<or> Render i \<in> set obs"
    by (simp_all add: len)
  from st ih have "mk_step s (fold mark_video obs ?s1)" by (rule mk_step_trans)
  moreover from im have "\<forall>i<length (heap s). mark (heap (fold mark_video obs ?s1) ! i)
                              \<longleftrightarrow> mark (heap s ! i) \<or> Render i \<in> set (ob # obs)"
    by (auto simp: mark_video_mark)
  ultimately show ?case by simp
qed

lemma video_phase_marks:
  "mk_step s (video_phase env s)"
  "i < length (heap s) \<Longrightarrow>
     mark (heap (video_phase env s) ! i) \<longleftrightarrow> mark (heap s ! i) \<or> spared env i"
  using mark_videos [of s "video_textures env"]
  by (simp_all add: video_phase_def spared_def mk_step_refl)

lemma mark_sweep_eq:
  assumes "\<forall>i<length (heap s). \<not> mark (heap s ! i)"
    and "mark_phase (gc_roots env s) s = (wl, s2)"
  shows "mark_sweep env s
           = (fold sweep_one (live_renders s) (video_phase env s2))\<lparr>live_renders := wl\<rparr>"
proof -
  have lr: "live_renders (video_phase env s2) = live_renders s2"
    using video_phase_marks(1) [of s2 env] by (simp add: mk_step_def)
  have "live_renders s2 = live_renders s"
    using mark_phase_marks(1) [OF assms] by (simp add: mk_step_def)
  with lr assms(2) show ?thesis
    by (simp add: mark_sweep_def mark_phase_def gc_roots_def video_phase_def Let_def)
qed

lemma mk_step_node:
  assumes "mk_step s s'" and "i < length (heap s)"
  shows "(heap s' ! i)\<lparr>mark := b\<rparr> = (heap s ! i)\<lparr>mark := b\<rparr>"
proof -
  from assms have "heap s' ! i = (heap s ! i)\<lparr>mark := mark (heap s' ! i)\<rparr>"
    by (simp add: mk_step_def)
  then have "(heap s' ! i)\<lparr>mark := b\<rparr> = (heap s ! i)\<lparr>mark := mark (heap s' ! i)\<rparr>\<lparr>mark := b\<rparr>"
    by (rule arg_cong)
  then show ?thesis by simp
qed

text \<open>The state before the sweep and the state after it, for a collection from clear marks.\<close>

lemma gc_phases:
  assumes clear: "\<forall>i<length (heap s). \<not> mark (heap s ! i)"
  obtains wl s3 where
    "mark_sweep env s = (fold sweep_one (live_renders s) s3)\<lparr>live_renders := wl\<rparr>"
    "mk_step s s3"
    "\<forall>m<length (heap s). mark (heap s3 ! m) \<longleftrightarrow> m \<in> reachable s (gc_roots env s) \<or> spared env m"
    "\<forall>m<length (heap s). m \<in> set wl \<longleftrightarrow> m \<in> reachable s (gc_roots env s)"
proof -
  obtain wl s2 where mp: "mark_phase (gc_roots env s) s = (wl, s2)"
    by (cases "mark_phase (gc_roots env s) s")
  note m = mark_phase_marks [OF clear mp]
  from m(1) have len: "length (heap s2) = length (heap s)" by (simp add: mk_step_def)
  show thesis
  proof (rule that [of wl "video_phase env s2"])
    show "mark_sweep env s
            = (fold sweep_one (live_renders s) (video_phase env s2))\<lparr>live_renders := wl\<rparr>"
      using clear mp by (rule mark_sweep_eq)
    show "mk_step s (video_phase env s2)"
      using m(1) video_phase_marks(1) by (rule mk_step_trans)
    show "\<forall>m<length (heap s). mark (heap (video_phase env s2) ! m)
            \<longleftrightarrow> m \<in> reachable s (gc_roots env s) \<or> spared env m"
      using m(2) by (simp add: video_phase_marks(2) len)
    show "\<forall>m<length (heap s). m \<in> set wl \<longleftrightarrow> m \<in> reachable s (gc_roots env s)"
      by (rule m(3))
  qed
qed

lemma gc_reachable:
  assumes clear: "\<forall>i<length (heap s). \<not> mark (heap s ! i)"
    and dist: "distinct (live_renders s)"
    and mir: "edges_mirrored s"
    and m: "m \<in> reachable s (gc_roots env s)"
  shows "killed (heap (mark_sweep env s) ! m) = killed (heap s ! m)"
    and "heap (mark_sweep env s) ! m
           = (heap s ! m)\<lparr>mark := mark (heap (mark_sweep env s) ! m),
                           parents := parents (heap (mark_sweep env s) ! m)\<rparr>"
    and "set (parents (heap (mark_sweep env s) ! m)) \<subseteq> set (parents (heap s ! m))"
    and "\<forall>p\<in>set (parents (heap s ! m)) - set (parents (heap (mark_sweep env s) ! m)).
           p < length (heap s) \<and> killed (heap (mark_sweep env s) ! p)"
    and "m \<in> set (live_renders s) \<Longrightarrow> \<not> mark (heap (mark_sweep env s) ! m)"
proof -
  let ?M = "reachable s (gc_roots env s)"
  from clear obtain wl s3 where
    eq: "mark_sweep env s = (fold sweep_one (live_renders s) s3)\<lparr>live_renders := wl\<rparr>"
    and mk: "mk_step s s3"
    and marks: "\<forall>m<length (heap s). mark (heap s3 ! m) \<longleftrightarrow> m \<in> ?M \<or> spared env m"
    by (rule gc_phases)
  let ?s4 = "fold sweep_one (live_renders s) s3"
  have heap: "heap (mark_sweep env s) = heap ?s4" by (simp add: eq)
  from mk have len: "length (heap s3) = length (heap s)" by (simp add: mk_step_def)
  from m have ml: "m < length (heap s)" by (rule reachable_in_heap)
  have "prot s ?M" using mir by (rule mirrored_prot)
  then have p3: "prot s3 ?M" using mk by (rule prot_mk_step)
  have "\<forall>r\<in>set (live_renders s). r \<in> ?M \<longrightarrow> r < length (heap s3) \<longrightarrow> mark (heap s3 ! r)"
    using marks by (simp add: len)
  with p3 dist have "keeps ?M s3 ?s4" by (rule sweep_protects)
  with m ml have k34: "killed (heap ?s4 ! m) = killed (heap s3 ! m)" by (simp add: keeps_def len)
  with mk ml show k: "killed (heap (mark_sweep env s) ! m) = killed (heap s ! m)"
    by (simp add: heap mk_step_field)
  have "kl_step (erase_marks s3) (erase_marks ?s4)" by (rule sweep_frame)
  with ml have "kl_node (erase_marks s3) (erase_marks ?s4) m" by (simp add: kl_step_def len)
  with k34 ml have n: "kl_node (erase_marks s3) (erase_marks ?s4) m"
    and ke: "killed (heap (erase_marks ?s4) ! m) = killed (heap (erase_marks s3) ! m)"
    by (simp_all add: nth_erase_marks len)
  from n ke ml have
    a: "(heap ?s4 ! m)\<lparr>mark := False\<rparr>
          = (heap s3 ! m)\<lparr>mark := False, parents := parents (heap ?s4 ! m)\<rparr>"
    and b: "set (parents (heap ?s4 ! m)) \<subseteq> set (parents (heap s3 ! m))"
    by (simp_all add: kl_node_def nth_erase_marks len)
  have c: "\<forall>p\<in>set (parents (heap s3 ! m)) - set (parents (heap ?s4 ! m)).
              p < length (heap s) \<and> killed (heap ?s4 ! p)"
  proof
    fix p assume p: "p \<in> set (parents (heap s3 ! m)) - set (parents (heap ?s4 ! m))"
    from ml have "parents (heap (erase_marks s3) ! m) = parents (heap s3 ! m)"
      "parents (heap (erase_marks ?s4) ! m) = parents (heap ?s4 ! m)"
      by (simp_all add: nth_erase_marks len)
    with p have "p \<in> set (parents (heap (erase_marks s3) ! m))
                    - set (parents (heap (erase_marks ?s4) ! m))" by simp
    with n ke have "p < length (heap (erase_marks s3)) \<and> killed (heap (erase_marks ?s4) ! p)"
      unfolding kl_node_def by (simp only: if_True)
    then have "p < length (heap s)" "killed (heap (erase_marks ?s4) ! p)" by (simp_all add: len)
    then show "p < length (heap s) \<and> killed (heap ?s4 ! p)"
      by (simp add: nth_erase_marks len)
  qed
  from mk ml have d: "(heap s3 ! m)\<lparr>mark := False\<rparr> = (heap s ! m)\<lparr>mark := False\<rparr>"
    by (rule mk_step_node)
  define P where "P = parents (heap ?s4 ! m)"
  define B where "B = mark (heap ?s4 ! m)"
  have "(heap s3 ! m)\<lparr>mark := False\<rparr>\<lparr>parents := P\<rparr> = (heap s ! m)\<lparr>mark := False\<rparr>\<lparr>parents := P\<rparr>"
    using d by (rule arg_cong)
  with a have "(heap ?s4 ! m)\<lparr>mark := False\<rparr> = (heap s ! m)\<lparr>mark := False, parents := P\<rparr>"
    by (simp add: P_def)
  then have "(heap ?s4 ! m)\<lparr>mark := False\<rparr>\<lparr>mark := B\<rparr>
               = (heap s ! m)\<lparr>mark := False, parents := P\<rparr>\<lparr>mark := B\<rparr>"
    by (rule arg_cong)
  then have e1: "(heap ?s4 ! m)\<lparr>mark := B\<rparr> = (heap s ! m)\<lparr>mark := B, parents := P\<rparr>"
    by simp
  have e2: "(heap ?s4 ! m)\<lparr>mark := B\<rparr> = heap ?s4 ! m" by (simp add: B_def)
  have "heap ?s4 ! m = (heap s ! m)\<lparr>mark := B, parents := P\<rparr>"
    using e2 [symmetric] e1 by (rule trans)
  then show "heap (mark_sweep env s) ! m
           = (heap s ! m)\<lparr>mark := mark (heap (mark_sweep env s) ! m),
                           parents := parents (heap (mark_sweep env s) ! m)\<rparr>"
    unfolding heap B_def P_def .
  from b mk ml show "set (parents (heap (mark_sweep env s) ! m)) \<subseteq> set (parents (heap s ! m))"
    by (simp add: heap mk_step_field)
  from c mk ml show "\<forall>p\<in>set (parents (heap s ! m)) - set (parents (heap (mark_sweep env s) ! m)).
           p < length (heap s) \<and> killed (heap (mark_sweep env s) ! p)"
    by (simp add: heap mk_step_field)
  show "\<not> mark (heap (mark_sweep env s) ! m)" if "m \<in> set (live_renders s)"
    using that ml by (simp add: heap sweep_unmarks len)
qed

lemma gc_unreachable:
  assumes clear: "\<forall>i<length (heap s). \<not> mark (heap s ! i)"
    and dist: "distinct (live_renders s)"
    and r: "r \<in> set (live_renders s)" "r < length (heap s)" "\<not> killed (heap s ! r)"
      "r \<notin> reachable s (gc_roots env s)" "\<not> spared env r"
  shows "heap (mark_sweep env s) ! r = dead (heap s ! r)"
proof -
  let ?M = "reachable s (gc_roots env s)"
  from clear obtain wl s3 where
    eq: "mark_sweep env s = (fold sweep_one (live_renders s) s3)\<lparr>live_renders := wl\<rparr>"
    and mk: "mk_step s s3"
    and marks: "\<forall>m<length (heap s). mark (heap s3 ! m) \<longleftrightarrow> m \<in> ?M \<or> spared env m"
    by (rule gc_phases)
  let ?s4 = "fold sweep_one (live_renders s) s3"
  have heap: "heap (mark_sweep env s) = heap ?s4" by (simp add: eq)
  from mk have len: "length (heap s3) = length (heap s)" by (simp add: mk_step_def)
  from marks r have nm: "\<not> mark (heap s3 ! r)" by simp
  with dist r(1,2) have k4: "killed (heap ?s4 ! r)" by (simp add: sweep_kills len)
  from mk r(2,3) have k3: "\<not> killed (heap s3 ! r)" by (simp add: mk_step_field)
  have "kl_step (erase_marks s3) (erase_marks ?s4)" by (rule sweep_frame)
  with r(2) have "kl_node (erase_marks s3) (erase_marks ?s4) r" by (simp add: kl_step_def len)
  with k3 k4 r(2) have a: "(heap ?s4 ! r)\<lparr>mark := False\<rparr> = dead ((heap s3 ! r)\<lparr>mark := False\<rparr>)"
    by (simp add: kl_node_def nth_erase_marks len)
  from mk r(2) have "(heap s3 ! r)\<lparr>mark := False\<rparr> = (heap s ! r)\<lparr>mark := False\<rparr>"
    by (rule mk_step_node)
  moreover from clear r(2) have "(heap s ! r)\<lparr>mark := False\<rparr> = heap s ! r" by simp
  ultimately have b: "(heap ?s4 ! r)\<lparr>mark := False\<rparr> = dead (heap s ! r)" using a by simp
  from r(2) nm have "\<not> mark (heap ?s4 ! r)" by (simp add: sweep_unmarked len)
  then have "(heap ?s4 ! r)\<lparr>mark := False\<rparr> = heap ?s4 ! r" by simp
  with b show ?thesis by (simp add: heap)
qed

lemma gc_live_renders:
  assumes "\<forall>i<length (heap s). \<not> mark (heap s ! i)" and "m < length (heap s)"
  shows "m \<in> set (live_renders (mark_sweep env s)) \<longleftrightarrow> m \<in> reachable s (gc_roots env s)"
proof -
  from assms(1) obtain wl s3 where
    eq: "mark_sweep env s = (fold sweep_one (live_renders s) s3)\<lparr>live_renders := wl\<rparr>"
    and wl: "\<forall>m<length (heap s). m \<in> set wl \<longleftrightarrow> m \<in> reachable s (gc_roots env s)"
    by (rule gc_phases)
  with assms(2) show ?thesis by simp
qed

lemma gc_state_eq:
  "gc_state = initial_state\<lparr>heap :=
      [(init_node 100 100)\<lparr>children := [(Render 1, IntC 0, IntC 0, False, True)],
                            depends_on_list := [1]\<rparr>,
       (init_node 50 50)\<lparr>parents := [0, 2]\<rparr>,
       (init_node 50 50)\<lparr>children := [(Render 1, IntC 0, IntC 0, False, True)],
                          depends_on_list := [1]\<rparr>,
       (init_node 10 10)\<lparr>children := [(Surface 7, IntC 0, IntC 0, False, True)]\<rparr>],
     live_renders := [0, 1, 2, 3], screen_render := Some 0\<rparr>"
  by (simp add: gc_state_def new_render_def blit_def blit_common_def Let_def upd_node_def
      set_add_def init_node_def initial_state_def py_int_def)

lemma gc_state_swept:
  "mark_sweep gc_plain gc_state = initial_state\<lparr>heap :=
      [(init_node 100 100)\<lparr>children := [(Render 1, IntC 0, IntC 0, False, True)],
                            depends_on_list := [1]\<rparr>,
       (init_node 50 50)\<lparr>parents := [0]\<rparr>,
       (init_node 50 50)\<lparr>killed := True\<rparr>,
       (init_node 10 10)\<lparr>killed := True,
                          children := [(Surface 7, IntC 0, IntC 0, False, True)]\<rparr>],
     live_renders := [0, 1], screen_render := Some 0\<rparr>"
  unfolding gc_state_eq
  by (simp add: mark_sweep_def gc_plain_def mark_loop.simps deps_of_def set_mark_def
      sweep_one_def graph_defs Let_def)

lemma gc_state_ok:
  "\<forall>i<length (heap gc_state). \<not> mark (heap gc_state ! i)"
  "distinct (live_renders gc_state)"
  "edges_mirrored gc_state"
  unfolding gc_state_eq
  by (simp_all add: edges_mirrored_def init_node_def initial_state_def All_less_Suc nth_Cons')

lemma gc_parents:
  assumes clear: "\<forall>i<length (heap s). \<not> mark (heap s ! i)"
    and dist: "distinct (live_renders s)"
    and mir: "edges_mirrored s"
    and m: "m \<in> reachable s (gc_roots env s)"
  shows "set (parents (heap (mark_sweep env s) ! m))
           = {p \<in> set (parents (heap s ! m)).
                \<not> (collected s (mark_sweep env s) p \<and> m \<in> set (depends_on_list (heap s ! p)))}"
    and "\<not> killed (heap s ! m) \<Longrightarrow>
         set (parents (heap (mark_sweep env s) ! m))
           = {p \<in> set (parents (heap s ! m)). \<not> collected s (mark_sweep env s) p}"
proof -
  from clear obtain wl s3 where
    eq: "mark_sweep env s = (fold sweep_one (live_renders s) s3)\<lparr>live_renders := wl\<rparr>"
    and mk: "mk_step s s3"
    by (rule gc_phases)
  let ?s4 = "fold sweep_one (live_renders s) s3"
  have heap: "heap (mark_sweep env s) = heap ?s4" by (simp add: eq)
  from mk have len: "length (heap s3) = length (heap s)" by (simp add: mk_step_def)
  from m have ml: "m < length (heap s)" by (rule reachable_in_heap)
  have k: "killed (heap ?s4 ! m) = killed (heap s3 ! m)"
    using gc_reachable(1) [OF clear dist mir m] mk ml by (simp add: heap mk_step_field)
  have "unlinks (erase_marks s3) (erase_marks ?s4)" by (rule sweep_unlinks)
  then have "unlinks s3 ?s4" by (simp add: unlinks_erase)
  with ml k have a: "set (parents (heap ?s4 ! m))
           = {p \<in> set (parents (heap s3 ! m)).
                \<not> (collected s3 ?s4 p \<and> m \<in> set (depends_on_list (heap s3 ! p)))}"
    by (simp add: unlinks_def len)
  have c: "collected s3 ?s4 p \<and> m \<in> set (depends_on_list (heap s3 ! p))
           \<longleftrightarrow> collected s (mark_sweep env s) p \<and> m \<in> set (depends_on_list (heap s ! p))" for p
  proof (cases "p < length (heap s)")
    case True
    with mk show ?thesis by (simp add: collected_def heap len mk_step_field)
  next
    case False
    then show ?thesis by (simp add: collected_def len)
  qed
  from mk ml have p3: "parents (heap s3 ! m) = parents (heap s ! m)" by (simp add: mk_step_field)
  show g: "set (parents (heap (mark_sweep env s) ! m))
           = {p \<in> set (parents (heap s ! m)).
                \<not> (collected s (mark_sweep env s) p \<and> m \<in> set (depends_on_list (heap s ! p)))}"
    unfolding heap a c p3 by (simp add: heap)
  show "set (parents (heap (mark_sweep env s) ! m))
           = {p \<in> set (parents (heap s ! m)). \<not> collected s (mark_sweep env s) p}"
    if live: "\<not> killed (heap s ! m)"
  proof -
    have "m \<in> set (depends_on_list (heap s ! p))"
      if "p \<in> set (parents (heap s ! m))" and "collected s (mark_sweep env s) p" for p
    proof -
      from that(2) have "p < length (heap s)" "\<not> killed (heap s ! p)"
        by (simp_all add: collected_def)
      with mir ml live that(1) show ?thesis unfolding edges_mirrored_def by blast
    qed
    then show ?thesis unfolding g by blast
  qed
qed

lemmas sweep_defs = mark_sweep_def mark_loop.simps deps_of_def set_mark_def sweep_one_def
  mark_video_def graph_defs Let_def

lemma dup_state_eq:
  "dup_state = initial_state\<lparr>heap :=
      [(init_node 100 100)\<lparr>children := [(Render 1, IntC 0, IntC 0, False, True)],
                            depends_on_list := [1]\<rparr>,
       (init_node 50 50)\<lparr>parents := [0]\<rparr>,
       (init_node 50 50)\<lparr>killed := True\<rparr>,
       (init_node 10 10)\<lparr>killed := True,
                          children := [(Surface 7, IntC 0, IntC 0, False, True)]\<rparr>],
     live_renders := [0, 0, 1], screen_render := Some 0\<rparr>"
  unfolding dup_state_def gc_state_eq by (simp add: sweep_defs dup_env_def)

lemma stale_state_eq:
  "stale_state = initial_state\<lparr>heap :=
      [(init_node 100 100)\<lparr>children := [(Render 1, IntC 0, IntC 0, True, True)],
                            depends_on_list := [1]\<rparr>,
       (init_node 50 50)\<lparr>mark := True, children := [(Render 2, IntC 0, IntC 0, True, True)],
                          depends_on_list := [2], parents := [0]\<rparr>,
       (init_node 50 50)\<lparr>parents := [1]\<rparr>],
     live_renders := [0, 2], screen_render := Some 0\<rparr>"
  by (simp add: stale_state_def new_render_def blit_def blit_common_def upd_node_def
      set_add_def init_node_def initial_state_def py_int_def video_env_def sweep_defs)

lemma mark_deps_listed:
  assumes "listed wl s" and "mark_deps js (wl, s) = (wl', s')"
  shows "listed wl' s'"
  using assms
proof (induction js arbitrary: wl s)
  case Nil
  then show ?case by simp
next
  case (Cons j js)
  show ?case
  proof (cases "j < length (heap s) \<and> \<not> mark (heap s ! j)")
    case True
    with Cons.prems(1) have "j \<notin> set wl" by (auto simp: listed_def)
    with Cons.prems(1) True have "listed (wl @ [j]) (set_mark True j s)"
      by (auto simp: listed_def set_mark_def nth_upd_node)
    moreover from True Cons.prems(2) have "mark_deps js (wl @ [j], set_mark True j s) = (wl', s')"
      by simp
    ultimately show ?thesis by (rule Cons.IH)
  next
    case False
    with Cons.prems(2) have "mark_deps js (wl, s) = (wl', s')" by auto
    with Cons.prems(1) show ?thesis by (rule Cons.IH)
  qed
qed

lemma mark_loop_listed:
  assumes "listed wl s" and "mark_loop i wl s = (wl', s')"
  shows "listed wl' s'"
  using assms
proof (induction i wl s rule: mark_loop.induct)
  case (1 i worklist s)
  show ?case
  proof (cases "i < length worklist")
    case False
    then have "mark_loop i worklist s = (worklist, s)" by (subst mark_loop.simps) simp
    with "1.prems" show ?thesis by simp
  next
    case True
    obtain wl1 s1 where md: "mark_deps (deps_of s (worklist ! i)) (worklist, s) = (wl1, s1)"
      by (cases "mark_deps (deps_of s (worklist ! i)) (worklist, s)")
    from "1.prems"(1) md have l1: "listed wl1 s1" by (rule mark_deps_listed)
    have "mark_loop i worklist s = mark_loop (i + 1) wl1 s1"
      using True md by (subst mark_loop.simps) simp
    with "1.prems"(2) have "mark_loop (i + 1) wl1 s1 = (wl', s')" by simp
    with "1.IH" [OF True md [symmetric] l1] show ?thesis .
  qed
qed

lemma mark_phase_distinct:
  assumes "distinct roots" and "mark_phase roots s = (wl, s')"
  shows "distinct wl"
proof -
  have "listed roots (fold (set_mark True) roots s)"
    using assms(1) by (simp add: listed_def nth_fold_set_mark)
  moreover from assms(2) have "mark_loop 0 roots (fold (set_mark True) roots s) = (wl, s')"
    by (simp add: mark_phase_def)
  ultimately have "listed wl s'" by (rule mark_loop_listed)
  then show ?thesis by (simp add: listed_def)
qed

lemma sweep_mark_other:
  "i \<notin> set l \<Longrightarrow> i < length (heap s) \<Longrightarrow>
     mark (heap (fold sweep_one l s) ! i) = mark (heap s ! i)"
  by (induction l arbitrary: s) (simp_all add: sweep_one_mark)

lemma gc_distinct:
  assumes "\<forall>i<length (heap s). \<not> mark (heap s ! i)" and "distinct (gc_roots env s)"
  shows "distinct (live_renders (mark_sweep env s))"
proof -
  obtain wl s2 where mp: "mark_phase (gc_roots env s) s = (wl, s2)"
    by (cases "mark_phase (gc_roots env s) s")
  from mark_sweep_eq [OF assms(1) mp] have "live_renders (mark_sweep env s) = wl" by simp
  with mark_phase_distinct [OF assms(2) mp] show ?thesis by simp
qed

lemma gc_clear:
  assumes clear: "\<forall>i<length (heap s). \<not> mark (heap s ! i)"
    and all: "\<forall>m<length (heap s). m \<in> reachable s (gc_roots env s) \<or> spared env m
                 \<longrightarrow> m \<in> set (live_renders s)"
    and i: "i < length (heap s)"
  shows "\<not> mark (heap (mark_sweep env s) ! i)"
proof -
  from clear obtain wl s3 where
    eq: "mark_sweep env s = (fold sweep_one (live_renders s) s3)\<lparr>live_renders := wl\<rparr>"
    and mk: "mk_step s s3"
    and marks: "\<forall>m<length (heap s). mark (heap s3 ! m)
                  \<longleftrightarrow> m \<in> reachable s (gc_roots env s) \<or> spared env m"
    by (rule gc_phases)
  have heap: "heap (mark_sweep env s) = heap (fold sweep_one (live_renders s) s3)"
    by (simp add: eq)
  from mk have len: "length (heap s3) = length (heap s)" by (simp add: mk_step_def)
  show ?thesis
  proof (cases "i \<in> set (live_renders s)")
    case True
    with i show ?thesis by (simp add: heap sweep_unmarks len)
  next
    case False
    with all i marks have "\<not> mark (heap s3 ! i)" by blast
    with False i show ?thesis by (simp add: heap sweep_mark_other len)
  qed
qed

subsection \<open>The parents sets mirror the dependency lists\<close>






lemma graph_step_refl: "graph_step None s s"
  by (simp add: graph_step_def)

































lemma blit_length [simp]:
  "length (heap (snd (blit lt self source pos focus main index s))) = length (heap s)"
  by (cases source; cases pos; simp add: blit_def blit_common_def Let_def)

lemma new_render_length [simp]:
  "length (heap (snd (new_render w h s))) = Suc (length (heap s))"
  by (simp add: new_render_def)




text \<open>
  C4, as the code has it. With source span \<open>(0, 10)\<close>, crop span \<open>(5, 10)\<close> and
  the crop span as bounds, \<^verbatim>\<open>compute_subline\<close> returns offset 0 (the overlap starts
  where the crop line starts), crop 5 and width 5. For disjoint spans the width is at
  most 0 when the larger of the source start and the bounds start is not negative.
\<close>

theorem subline_overlap:
  "compute_subline 0 10 5 10 5 10 = (0, 5, 5)
   \<and> ({sx..<sx + sw} \<inter> {cx..<cx + cw} = {} \<and> 0 \<le> max sx bx
        \<longrightarrow> snd (snd (compute_subline sx sw cx cw bx bw)) \<le> 0)"
proof (intro conjI impI)
  show "compute_subline 0 10 5 10 5 10 = (0, 5, 5)"
    by (simp add: compute_subline_def Let_def)
next
  assume a: "{sx..<sx + sw} \<inter> {cx..<cx + cw} = {} \<and> 0 \<le> max sx bx"
  then have "min (sx + sw) (cx + cw) \<le> max sx cx"
    using disjoint_iff_le [of sx "sx + sw" cx "cx + cw"] by blast
  with a show "snd (snd (compute_subline sx sw cx cw bx bw)) \<le> 0"
    by (simp add: compute_subline_def Let_def)
qed

theorem subline_overlap_witness:
  "{0..<0 + 5} \<inter> {10..<10 + 5} = ({}::int set) \<and> (0::int) \<le> max 0 10
   \<and> snd (snd (compute_subline 0 5 10 5 10 5)) \<le> 0"
  using subline_overlap [of 0 5 10 5 10 5] by simp

text \<open>
  C4 as stated fails twice: the offset of the first example is 0, not 5; and the disjoint
  spans \<open>(-20, 5)\<close> and \<open>(-10, 5)\<close>, with the crop span as bounds, give width 5.
\<close>

theorem subline_overlap_counterexample:
  "compute_subline 0 10 5 10 5 10 = (0, 5, 5)
   \<and> {-20..<-20 + 5} \<inter> {-10..<-10 + 5} = ({}::int set)
   \<and> compute_subline (-20) 5 (-10) 5 (-10) 5 = (-10, 0, 5)"
  by (simp add: compute_subline_def Let_def)



text \<open>
  C7. A node cannot be made its own child or dependency: each of \<^verbatim>\<open>blit\<close>,
  \<^verbatim>\<open>subpixel_blit\<close>, \<^verbatim>\<open>absolute_blit\<close> and \<^verbatim>\<open>depends_on\<close>, called with the node
  itself as source, raises (the exception the specification calls a contract violation)
  and leaves every node, the node's children and dependency lists included, as it was.
\<close>

theorem no_self_dependency:
  "blit load_texture self (Render self) pos focus main index s
     = (Inl (Exception ''Blitting to self.''), s)
   \<and> subpixel_blit load_texture self (Render self) pos focus main index s
     = (Inl (Exception ''Blitting to self.''), s)
   \<and> absolute_blit load_texture self (Render self) pos focus main index s
     = (Inl (Exception ''Blitting to self.''), s)
   \<and> depends_on self self focus s = (Inl (Exception ''Render depends on itself.''), s)"
  by (simp add: blit_def subpixel_blit_def absolute_blit_def depends_on_def)

text \<open>
  C6, as the code has it. \<^verbatim>\<open>adjust_render_cache_times(old_time, new_time)\<close> leaves the
  dictionary of a displayable untouched when none of its keys has shown-time component
  \<open>old_time\<close>, whatever the animation-time components are. Otherwise it rebuilds the
  dictionary: a lookup in the new one finds the node of the last entry, in dictionary
  order, whose rebased key is the key looked up; so when no two keys are rebased to the
  same key, every key is replaced by its rebased key and keeps its node.
\<close>

theorem rebase_times:
  assumes "map_of (render_cache s) d = Some renders"
  shows "(\<not> has_st_base old renders \<longrightarrow>
            map_of (render_cache (adjust_render_cache_times old new s)) d = Some renders)
       \<and> (has_st_base old renders \<longrightarrow>
            (\<forall>k'. cache_get (adjust_render_cache_times old new s) d k'
                   = map_of (rev (map (\<lambda>(k, v). (rebase_key old new k, v)) renders)) k'))
       \<and> (has_st_base old renders \<and> distinct (map fst renders)
            \<and> inj_on (rebase_key old new) (fst ` set renders) \<and> (k, v) \<in> set renders \<longrightarrow>
            cache_get (adjust_render_cache_times old new s) d (rebase_key old new k) = Some v)"
  using assms
  by (simp add: cache_get_def map_of_adjust map_of_rebase_renders map_of_rev_inj)

theorem rebase_times_witness:
  "has_st_base 5 [((10, 10, 5, 5), 7), ((20, 20, 0, 5), 8)]
   \<and> cache_get (adjust_render_cache_times 5 9 rebase_state) 1 (10, 10, 9, 9) = Some 7
   \<and> cache_get (adjust_render_cache_times 5 9 rebase_state) 1 (20, 20, 0, 9) = Some 8
   \<and> \<not> has_st_base 5 [((10, 10, 0, 5), 7)]
   \<and> map_of (render_cache (adjust_render_cache_times 5 9 rebase_state)) 2
       = Some [((10, 10, 0, 5), 7)]"
proof -
  let ?r = "[((10, 10, 5, 5), 7), ((20, 20, 0, 5), 8)] :: (key \<times> rid) list"
  have m: "map_of (render_cache rebase_state) 1 = Some ?r"
    "map_of (render_cache rebase_state) 2 = Some [((10, 10, 0, 5), 7)]"
    by (simp_all add: rebase_state_def initial_state_def)
  have b: "has_st_base 5 ?r" "\<not> has_st_base 5 [((10, 10, 0, 5), 7)]"
    by (simp_all add: has_st_base_def)
  have d: "distinct (map fst ?r)" "inj_on (rebase_key 5 9) (fst ` set ?r)"
    by (simp_all add: rebase_key_def)
  have k: "rebase_key 5 9 (10, 10, 5, 5) = (10, 10, 9, 9)"
    "rebase_key 5 9 (20, 20, 0, 5) = (20, 20, 0, 9)"
    by (simp_all add: rebase_key_def)
  from rebase_times [OF m(1), of 5 9 "(10, 10, 5, 5)" 7]
       rebase_times [OF m(1), of 5 9 "(20, 20, 0, 5)" 8]
       rebase_times [OF m(2), of 5 9] b d
  show ?thesis by (simp add: k)
qed

text \<open>
  C6 as stated fails on the code. Displayable 2 has one key, with animation time 5 and
  shown time 0: rebasing 5 to 9 leaves it as it is. Displayable 3 has the keys
  \<open>(10, 10, 9, 0)\<close> and \<open>(10, 10, 5, 0)\<close>: after rebasing 5 to 9 the first key,
  which matches nothing, maps to the node of the second.
\<close>

theorem rebase_times_counterexample:
  "cache_get rebase_state 2 (10, 10, 0, 5) = Some 7
   \<and> cache_get (adjust_render_cache_times 5 9 rebase_state) 2 (10, 10, 0, 9) = None
   \<and> cache_get (adjust_render_cache_times 5 9 rebase_state) 2 (10, 10, 0, 5) = Some 7
   \<and> cache_get rebase_state 3 (10, 10, 9, 0) = Some 4
   \<and> cache_get (adjust_render_cache_times 5 9 rebase_state) 3 (10, 10, 9, 0) = Some 3"
  by (simp add: rebase_state_def initial_state_def adjust_render_cache_times_def cache_get_def
        has_st_base_def rebase_renders_def rebase_key_def)










text \<open>
  C10. \<^verbatim>\<open>kill_cache\<close> and \<^verbatim>\<open>kill\<close> set their flag before they go through the
  parents and return at once when it is set. On every heap, with or without cycles among
  the parents, both recursions are well founded, so every call returns; the flag of the
  node is set when the call returns; and a second call on the same node changes nothing.
\<close>

theorem kill_terminates:
  "kill_cache_kill_cache_all_dom (Inl (n, s)) \<and> kill_kill_all_dom (Inl (n, s))
   \<and> kill_cache n (kill_cache n s) = kill_cache n s
   \<and> kill n (kill n s) = kill n s
   \<and> (n < length (heap s) \<longrightarrow>
        cache_killed (heap (kill_cache n s) ! n) \<and> killed (heap (kill n s) ! n))
   \<and> (n < length (heap s) \<and> cache_killed (heap s ! n) \<longrightarrow> kill_cache n s = s)
   \<and> (n < length (heap s) \<and> killed (heap s ! n) \<longrightarrow> kill n s = s)"
proof (intro conjI impI)
  show "kill_cache_kill_cache_all_dom (Inl (n, s))" using kill_cache_total by (rule spec)
  show "kill_kill_all_dom (Inl (n, s))" using kill_total by (rule spec)
  show "kill_cache n (kill_cache n s) = kill_cache n s"
  proof (cases "n < length (heap s)")
    case True
    have "kc_step s (kill_cache n s)" by (rule kill_cache_step)
    then have "length (heap (kill_cache n s)) = length (heap s)" by (simp add: kc_step_def)
    with True kill_cache_flagged [OF True] show ?thesis
      by (subst kill_cache.simps) simp
  next
    case False
    then have "kill_cache n s = s" by (simp add: kill_cache.simps)
    then show ?thesis by simp
  qed
  show "kill n (kill n s) = kill n s"
  proof (cases "n < length (heap s)")
    case True
    have "kl_step s (kill n s)" by (rule kill_step)
    then have "length (heap (kill n s)) = length (heap s)" by (simp add: kl_step_def)
    with True kill_flagged [OF True] show ?thesis
      by (subst kill.simps) simp
  next
    case False
    then have "kill n s = s" by (simp add: kill.simps)
    then show ?thesis by simp
  qed
next
  assume "n < length (heap s)"
  then show "cache_killed (heap (kill_cache n s) ! n)" by (rule kill_cache_flagged)
next
  assume "n < length (heap s)"
  then show "killed (heap (kill n s) ! n)" by (rule kill_flagged)
next
  assume "n < length (heap s) \<and> cache_killed (heap s ! n)"
  then show "kill_cache n s = s" by (simp add: kill_cache.simps)
next
  assume "n < length (heap s) \<and> killed (heap s ! n)"
  then show "kill n s = s" by (simp add: kill.simps)
qed

theorem kill_terminates_witness:
  "kill_cache 0 (kill_cache 0 ring_state) = kill_cache 0 ring_state
   \<and> kill 0 (kill 0 ring_state) = kill 0 ring_state
   \<and> cache_killed (heap (kill_cache 0 ring_state) ! 0)
   \<and> cache_killed (heap (kill_cache 0 ring_state) ! 1)
   \<and> killed (heap (kill 0 ring_state) ! 0)
   \<and> killed (heap (kill 0 ring_state) ! 1)
   \<and> kill 1 (kill 0 ring_state) = kill 0 ring_state
   \<and> kill_cache 1 (kill_cache 0 ring_state) = kill_cache 0 ring_state"
proof -
  have l: "0 < length (heap ring_state)" by (simp add: ring_state_def)
  have k: "1 < length (heap (kill 0 ring_state)) \<and> killed (heap (kill 0 ring_state) ! 1)"
    "1 < length (heap (kill_cache 0 ring_state)) \<and> cache_killed (heap (kill_cache 0 ring_state) ! 1)"
    by (simp_all add: ring_state_def graph_defs)
  from kill_terminates [of 0 ring_state] kill_terminates [of 1 "kill 0 ring_state"]
    kill_terminates [of 1 "kill_cache 0 ring_state"] l k
  show ?thesis by simp
qed

text \<open>
  C3. Let \<open>P\<close> be among the parents of \<open>C\<close>, neither being cache-killed, and let
  every cache entry of either node be under a displayable the node renders (as
  \<^verbatim>\<open>render\<close> stores them). After \<^verbatim>\<open>C.kill_cache()\<close> no cache entry holds \<open>C\<close>
  or \<open>P\<close>, so neither can be retrieved under any key; and no field of any node has
  changed but the \<^verbatim>\<open>cache_killed\<close> flags: children, dependencies, displayables and
  focuses are as they were.
\<close>

theorem invalidation_cascade:
  assumes "C < length (heap s)" and "P < length (heap s)"
    and "P \<in> set (parents (heap s ! C))"
    and "\<not> cache_killed (heap s ! C)" and "\<not> cache_killed (heap s ! P)"
    and "\<forall>d k. (d, k, C) \<in> cache_entries s \<longrightarrow> d \<in> set (render_of (heap s ! C))"
    and "\<forall>d k. (d, k, P) \<in> cache_entries s \<longrightarrow> d \<in> set (render_of (heap s ! P))"
  shows "(\<forall>d k. (d, k, C) \<notin> cache_entries (kill_cache C s)
               \<and> (d, k, P) \<notin> cache_entries (kill_cache C s)
               \<and> cache_get (kill_cache C s) d k \<noteq> Some C
               \<and> cache_get (kill_cache C s) d k \<noteq> Some P)
       \<and> length (heap (kill_cache C s)) = length (heap s)
       \<and> (\<forall>i<length (heap s).
             heap (kill_cache C s) ! i
               = (heap s ! i)\<lparr>cache_killed := cache_killed (heap (kill_cache C s) ! i)\<rparr>)"
proof -
  let ?s' = "kill_cache C s"
  let ?s1 = "upd_node C (\<lambda>r. r\<lparr>cache_killed := True\<rparr>) s"
  have st: "kc_step s ?s'" by (rule kill_cache_step)
  have sw: "swept s ?s'" by (rule kill_cache_swept)
  have fC: "cache_killed (heap ?s' ! C)" using assms(1) by (rule kill_cache_flagged)
  have eq: "?s' = uncache C (kill_cache_all (parents (heap s ! C)) ?s1)"
    using assms(1,4) by (simp add: kill_cache.simps)
  have "cache_killed (heap (kill_cache_all (parents (heap s ! C)) ?s1) ! P)"
    using assms(3) by (rule kill_cache_all_flagged) (simp add: assms(2))
  then have fP: "cache_killed (heap ?s' ! P)" by (simp add: eq)
  have gone: "(d, k, m) \<notin> cache_entries ?s'"
    if m: "m < length (heap s)" and a: "\<not> cache_killed (heap s ! m)"
      and b: "cache_killed (heap ?s' ! m)"
      and c: "\<forall>d k. (d, k, m) \<in> cache_entries s \<longrightarrow> d \<in> set (render_of (heap s ! m))"
    for m d k
  proof (cases "d \<in> set (render_of (heap s ! m))")
    case True
    with sw m a b show ?thesis unfolding swept_def by blast
  next
    case False
    with c have "(d, k, m) \<notin> cache_entries s" by blast
    with st show ?thesis unfolding kc_step_def by blast
  qed
  have gC: "(d, k, C) \<notin> cache_entries ?s'" for d k
    using assms(1,4) fC assms(6) by (rule gone)
  have gP: "(d, k, P) \<notin> cache_entries ?s'" for d k
    using assms(2,5) fP assms(7) by (rule gone)
  have "cache_get ?s' d k \<noteq> Some C" "cache_get ?s' d k \<noteq> Some P" for d k
    using gC [of d k] gP [of d k] cache_get_entries [of ?s' d k] by blast+
  with gC gP st show ?thesis unfolding kc_step_def by blast
qed

theorem invalidation_cascade_witness:
  "cache_get ring_state 1 (10, 10, 0, 0) = Some 0
   \<and> cache_get ring_state 2 (10, 10, 0, 0) = Some 1
   \<and> (\<forall>d k. cache_get (kill_cache 0 ring_state) d k \<noteq> Some 0
             \<and> cache_get (kill_cache 0 ring_state) d k \<noteq> Some 1)
   \<and> heap (kill_cache 0 ring_state)
       = [(heap ring_state ! 0)\<lparr>cache_killed := True\<rparr>, (heap ring_state ! 1)\<lparr>cache_killed := True\<rparr>]"
proof -
  have a: "0 < length (heap ring_state)" "1 < length (heap ring_state)"
    "1 \<in> set (parents (heap ring_state ! 0))"
    "\<not> cache_killed (heap ring_state ! 0)" "\<not> cache_killed (heap ring_state ! 1)"
    by (simp_all add: ring_state_def init_node_def)
  have e: "cache_entries ring_state = {(1, (10, 10, 0, 0), 0), (2, (10, 10, 0, 0), 1)}"
    by (auto simp: cache_entries_def ring_state_def initial_state_def split: if_splits)
  have r: "\<forall>d k. (d, k, 0) \<in> cache_entries ring_state \<longrightarrow> d \<in> set (render_of (heap ring_state ! 0))"
    "\<forall>d k. (d, k, 1) \<in> cache_entries ring_state \<longrightarrow> d \<in> set (render_of (heap ring_state ! 1))"
    unfolding e by (simp_all add: ring_state_def)
  have h: "heap (kill_cache 0 ring_state)
       = [(heap ring_state ! 0)\<lparr>cache_killed := True\<rparr>, (heap ring_state ! 1)\<lparr>cache_killed := True\<rparr>]"
    "cache_get ring_state 1 (10, 10, 0, 0) = Some 0"
    "cache_get ring_state 2 (10, 10, 0, 0) = Some 1"
    by (simp_all add: ring_state_def graph_defs cache_get_def)
  from invalidation_cascade [OF a r] h show ?thesis by simp
qed

text \<open>
  C2, as the code has it. A collection started from clear marks, with a duplicate-free list
  of live renders and parents sets that mirror the dependency lists, does not kill the
  screen render or any node reachable from the roots (the screen render and the renders of
  the image cache) along \<^verbatim>\<open>depends_on_list\<close>: such a node keeps its \<^verbatim>\<open>killed\<close>
  flag and all its fields but two, the mark and the parents set. The parents set loses
  exactly the nodes that the collection killed and that had the node among their
  dependencies, which for a node that is not killed are all its parents that the collection
  killed. The mark is clear again if the node was in the list of live renders. A live
  render of the list that is not reachable, and that the loop over the video textures has
  not marked, is killed and left as \<^verbatim>\<open>kill\<close> leaves a node: its dependencies are
  emptied, and its children only if it had dependencies. The new list of live renders holds
  the reachable nodes; it is free of duplicates if the roots are, and the marks are all clear
  again if the reachable nodes and the marked video textures were all in the list of live
  renders.
\<close>

theorem gc_safety:
  assumes scr: "screen_render s = Some rt"
    and clear: "\<forall>i<length (heap s). \<not> mark (heap s ! i)"
    and dist: "distinct (live_renders s)"
    and mir: "edges_mirrored s"
  shows "gc_roots env s = rt # im_cache_renders env
       \<and> (rt < length (heap s) \<longrightarrow> rt \<in> reachable s (gc_roots env s))
       \<and> (\<forall>m\<in>reachable s (gc_roots env s).
             killed (heap (mark_sweep env s) ! m) = killed (heap s ! m)
           \<and> heap (mark_sweep env s) ! m
               = (heap s ! m)\<lparr>mark := mark (heap (mark_sweep env s) ! m),
                               parents := parents (heap (mark_sweep env s) ! m)\<rparr>
           \<and> set (parents (heap (mark_sweep env s) ! m))
               = {p \<in> set (parents (heap s ! m)).
                    \<not> (collected s (mark_sweep env s) p
                       \<and> m \<in> set (depends_on_list (heap s ! p)))}
           \<and> (\<not> killed (heap s ! m) \<longrightarrow>
                set (parents (heap (mark_sweep env s) ! m))
                  = {p \<in> set (parents (heap s ! m)). \<not> collected s (mark_sweep env s) p})
           \<and> (m \<in> set (live_renders s) \<longrightarrow> \<not> mark (heap (mark_sweep env s) ! m)))
       \<and> (\<forall>r\<in>set (live_renders s).
             r < length (heap s) \<and> \<not> killed (heap s ! r)
             \<and> r \<notin> reachable s (gc_roots env s) \<and> \<not> spared env r
             \<longrightarrow> heap (mark_sweep env s) ! r = dead (heap s ! r))
       \<and> (\<forall>m<length (heap s).
             m \<in> set (live_renders (mark_sweep env s)) \<longleftrightarrow> m \<in> reachable s (gc_roots env s))
       \<and> (distinct (gc_roots env s) \<longrightarrow> distinct (live_renders (mark_sweep env s)))
       \<and> ((\<forall>m<length (heap s). m \<in> reachable s (gc_roots env s) \<or> spared env m
                 \<longrightarrow> m \<in> set (live_renders s))
            \<longrightarrow> (\<forall>i<length (heap s). \<not> mark (heap (mark_sweep env s) ! i)))"
proof -
  have A: "gc_roots env s = rt # im_cache_renders env" using scr by (simp add: gc_roots_def)
  then have B: "rt < length (heap s) \<longrightarrow> rt \<in> reachable s (gc_roots env s)"
    by (simp add: reachable_def)
  have C: "\<forall>m\<in>reachable s (gc_roots env s).
             killed (heap (mark_sweep env s) ! m) = killed (heap s ! m)
           \<and> heap (mark_sweep env s) ! m
               = (heap s ! m)\<lparr>mark := mark (heap (mark_sweep env s) ! m),
                               parents := parents (heap (mark_sweep env s) ! m)\<rparr>
           \<and> set (parents (heap (mark_sweep env s) ! m))
               = {p \<in> set (parents (heap s ! m)).
                    \<not> (collected s (mark_sweep env s) p
                       \<and> m \<in> set (depends_on_list (heap s ! p)))}
           \<and> (\<not> killed (heap s ! m) \<longrightarrow>
                set (parents (heap (mark_sweep env s) ! m))
                  = {p \<in> set (parents (heap s ! m)). \<not> collected s (mark_sweep env s) p})
           \<and> (m \<in> set (live_renders s) \<longrightarrow> \<not> mark (heap (mark_sweep env s) ! m))"
  proof
    fix m assume m: "m \<in> reachable s (gc_roots env s)"
    note r = gc_reachable [OF clear dist mir m]
    note q = gc_parents [OF clear dist mir m]
    from r(5) have "m \<in> set (live_renders s) \<longrightarrow> \<not> mark (heap (mark_sweep env s) ! m)" ..
    moreover from q(2) have "\<not> killed (heap s ! m) \<longrightarrow>
                set (parents (heap (mark_sweep env s) ! m))
                  = {p \<in> set (parents (heap s ! m)). \<not> collected s (mark_sweep env s) p}" ..
    ultimately show
      "killed (heap (mark_sweep env s) ! m) = killed (heap s ! m)
           \<and> heap (mark_sweep env s) ! m
               = (heap s ! m)\<lparr>mark := mark (heap (mark_sweep env s) ! m),
                               parents := parents (heap (mark_sweep env s) ! m)\<rparr>
           \<and> set (parents (heap (mark_sweep env s) ! m))
               = {p \<in> set (parents (heap s ! m)).
                    \<not> (collected s (mark_sweep env s) p
                       \<and> m \<in> set (depends_on_list (heap s ! p)))}
           \<and> (\<not> killed (heap s ! m) \<longrightarrow>
                set (parents (heap (mark_sweep env s) ! m))
                  = {p \<in> set (parents (heap s ! m)). \<not> collected s (mark_sweep env s) p})
           \<and> (m \<in> set (live_renders s) \<longrightarrow> \<not> mark (heap (mark_sweep env s) ! m))"
      using r(1) r(2) q(1) by (intro conjI)
  qed
  have D: "\<forall>r\<in>set (live_renders s).
             r < length (heap s) \<and> \<not> killed (heap s ! r)
             \<and> r \<notin> reachable s (gc_roots env s) \<and> \<not> spared env r
             \<longrightarrow> heap (mark_sweep env s) ! r = dead (heap s ! r)"
    using clear dist by (simp add: gc_unreachable)
  have E: "\<forall>m<length (heap s).
             m \<in> set (live_renders (mark_sweep env s)) \<longleftrightarrow> m \<in> reachable s (gc_roots env s)"
    using clear by (simp add: gc_live_renders)
  have F: "distinct (gc_roots env s) \<longrightarrow> distinct (live_renders (mark_sweep env s))"
    using clear by (simp add: gc_distinct)
  have G: "(\<forall>m<length (heap s). m \<in> reachable s (gc_roots env s) \<or> spared env m
                 \<longrightarrow> m \<in> set (live_renders s))
            \<longrightarrow> (\<forall>i<length (heap s). \<not> mark (heap (mark_sweep env s) ! i))"
  proof (intro impI allI)
    fix i
    assume "\<forall>m<length (heap s). m \<in> reachable s (gc_roots env s) \<or> spared env m
                 \<longrightarrow> m \<in> set (live_renders s)"
      and "i < length (heap s)"
    with clear show "\<not> mark (heap (mark_sweep env s) ! i)" by (rule gc_clear)
  qed
  from A B C D E F G show ?thesis by (intro conjI)
qed

theorem gc_safety_witness:
  "screen_render gc_state = Some 0
   \<and> 0 \<in> reachable gc_state (gc_roots gc_plain gc_state)
   \<and> 1 \<in> reachable gc_state (gc_roots gc_plain gc_state)
   \<and> 2 \<notin> reachable gc_state (gc_roots gc_plain gc_state)
   \<and> \<not> killed (heap (mark_sweep gc_plain gc_state) ! 0)
   \<and> \<not> killed (heap (mark_sweep gc_plain gc_state) ! 1)
   \<and> heap (mark_sweep gc_plain gc_state) ! 0 = heap gc_state ! 0
   \<and> heap (mark_sweep gc_plain gc_state) ! 1 = (heap gc_state ! 1)\<lparr>parents := [0]\<rparr>
   \<and> heap (mark_sweep gc_plain gc_state) ! 2 = dead (heap gc_state ! 2)
   \<and> depends_on_list (heap (mark_sweep gc_plain gc_state) ! 2) = []
   \<and> children (heap (mark_sweep gc_plain gc_state) ! 2) = []
   \<and> distinct (live_renders (mark_sweep gc_plain gc_state))"
proof -
  have sr: "screen_render gc_state = Some 0" by (simp add: gc_state_eq)
  note g = gc_safety [OF sr gc_state_ok, of gc_plain]
  note g2 = g [THEN conjunct2, THEN conjunct1]
  note g3 = g [THEN conjunct2, THEN conjunct2, THEN conjunct1]
  note g4 = g [THEN conjunct2, THEN conjunct2, THEN conjunct2, THEN conjunct1]
  note g5 = g [THEN conjunct2, THEN conjunct2, THEN conjunct2, THEN conjunct2, THEN conjunct1]
  note g6 = g [THEN conjunct2, THEN conjunct2, THEN conjunct2, THEN conjunct2, THEN conjunct2,
    THEN conjunct1]
  have lr: "live_renders (mark_sweep gc_plain gc_state) = [0, 1]"
    "length (heap gc_state) = 4" "live_renders gc_state = [0, 1, 2, 3]"
    "\<not> killed (heap gc_state ! 0)" "\<not> killed (heap gc_state ! 1)" "\<not> killed (heap gc_state ! 2)"
    by (simp_all add: gc_state_swept) (simp_all add: gc_state_eq init_node_def)
  from g2 lr(2) have m0: "0 \<in> reachable gc_state (gc_roots gc_plain gc_state)" by simp
  from g5 [rule_format, of 1] lr(1,2)
  have m1: "1 \<in> reachable gc_state (gc_roots gc_plain gc_state)" by simp
  from g5 [rule_format, of 2] lr(1,2)
  have m2: "2 \<notin> reachable gc_state (gc_roots gc_plain gc_state)" by simp
  note m = m0 m1 m2
  have sp: "\<not> spared gc_plain 2" by (simp add: spared_def gc_plain_def)
  from g3 [rule_format, OF m0] g3 [rule_format, OF m1] lr(4,5)
  have k: "\<not> killed (heap (mark_sweep gc_plain gc_state) ! 0)"
    "\<not> killed (heap (mark_sweep gc_plain gc_state) ! 1)" by simp_all
  from g4 [rule_format, of 2] m2 lr sp
  have d: "heap (mark_sweep gc_plain gc_state) ! 2 = dead (heap gc_state ! 2)"
    by simp
  have e: "heap (mark_sweep gc_plain gc_state) ! 0 = heap gc_state ! 0"
    "heap (mark_sweep gc_plain gc_state) ! 1 = (heap gc_state ! 1)\<lparr>parents := [0]\<rparr>"
    "depends_on_list (heap (mark_sweep gc_plain gc_state) ! 2) = []"
    "children (heap (mark_sweep gc_plain gc_state) ! 2) = []"
    by (simp_all add: gc_state_swept) (simp_all add: gc_state_eq init_node_def)
  have "distinct (gc_roots gc_plain gc_state)" by (simp add: gc_roots_def gc_plain_def sr)
  with g6 have dl: "distinct (live_renders (mark_sweep gc_plain gc_state))" by simp
  from sr m k d e dl show ?thesis by simp
qed

text \<open>
  C2 as stated fails on the code, in four ways. A killed node that had no dependencies keeps
  its children (render 3 of the screen above, which drew a surface). A reachable node loses
  from its parents set the nodes that the collection killed (render 1 loses render 2). When
  the screen render is twice in the list of live renders, as the collection before left it,
  the sweep clears its mark at the first visit and kills it at the second. And when a
  reachable node carries a mark from before, the mark phase does not go through it: its
  dependency is swept, and \<^verbatim>\<open>kill\<close> goes up the parents to the screen render.
\<close>

theorem gc_safety_counterexample:
  "screen_render gc_state = Some 0
   \<and> 1 \<in> reachable gc_state [0]
   \<and> \<not> killed (heap (mark_sweep gc_plain gc_state) ! 1)
   \<and> parents (heap gc_state ! 1) = [0, 2]
   \<and> parents (heap (mark_sweep gc_plain gc_state) ! 1) = [0]
   \<and> 3 \<in> set (live_renders gc_state)
   \<and> 3 \<notin> reachable gc_state (gc_roots gc_plain gc_state)
   \<and> \<not> killed (heap gc_state ! 3)
   \<and> killed (heap (mark_sweep gc_plain gc_state) ! 3)
   \<and> depends_on_list (heap (mark_sweep gc_plain gc_state) ! 3) = []
   \<and> children (heap (mark_sweep gc_plain gc_state) ! 3)
       = [(Surface 7, IntC 0, IntC 0, False, True)]
   \<and> screen_render dup_state = Some 0
   \<and> live_renders dup_state = [0, 0, 1]
   \<and> \<not> killed (heap dup_state ! 0)
   \<and> killed (heap (mark_sweep dup_env dup_state) ! 0)
   \<and> screen_render stale_state = Some 0
   \<and> live_renders stale_state = [0, 2]
   \<and> map mark (heap stale_state) = [False, True, False]
   \<and> map killed (heap stale_state) = [False, False, False]
   \<and> map depends_on_list (heap stale_state) = [[1], [2], []]
   \<and> map killed (heap (mark_sweep gc_plain stale_state)) = [True, True, True]"
proof -
  have "0 \<in> reachable gc_state [0]" by (simp add: reachable_def gc_state_eq)
  moreover have "1 \<in> set (depends_on_list (heap gc_state ! 0))" "1 < length (heap gc_state)"
    by (simp_all add: gc_state_eq)
  ultimately have a: "1 \<in> reachable gc_state [0]" by (rule reachable_closed)
  have "3 \<in> set (live_renders (mark_sweep gc_plain gc_state))
          \<longleftrightarrow> 3 \<in> reachable gc_state (gc_roots gc_plain gc_state)"
    using gc_state_ok(1) by (rule gc_live_renders) (simp add: gc_state_eq)
  then have b: "3 \<notin> reachable gc_state (gc_roots gc_plain gc_state)"
    by (simp add: gc_state_swept)
  have c: "screen_render gc_state = Some 0" "parents (heap gc_state ! 1) = [0, 2]"
    "3 \<in> set (live_renders gc_state)" "\<not> killed (heap gc_state ! 3)"
    by (simp_all add: gc_state_eq init_node_def)
  have d: "\<not> killed (heap (mark_sweep gc_plain gc_state) ! 1)"
    "parents (heap (mark_sweep gc_plain gc_state) ! 1) = [0]"
    "killed (heap (mark_sweep gc_plain gc_state) ! 3)"
    "depends_on_list (heap (mark_sweep gc_plain gc_state) ! 3) = []"
    "children (heap (mark_sweep gc_plain gc_state) ! 3)
       = [(Surface 7, IntC 0, IntC 0, False, True)]"
    by (simp_all add: gc_state_swept init_node_def)
  have e: "screen_render dup_state = Some 0" "live_renders dup_state = [0, 0, 1]"
    "\<not> killed (heap dup_state ! 0)" "killed (heap (mark_sweep dup_env dup_state) ! 0)"
    by (simp_all add: dup_state_eq)
       (simp_all add: init_node_def sweep_defs dup_env_def)
  have f: "screen_render stale_state = Some 0" "live_renders stale_state = [0, 2]"
    "map mark (heap stale_state) = [False, True, False]"
    "map killed (heap stale_state) = [False, False, False]"
    "map depends_on_list (heap stale_state) = [[1], [2], []]"
    "map killed (heap (mark_sweep gc_plain stale_state)) = [True, True, True]"
    by (simp_all add: stale_state_eq)
       (simp_all add: init_node_def sweep_defs gc_plain_def)
  from a b c d e f show ?thesis by (intro conjI)
qed



end
